theory Spec2Isabelle
  imports Main "HOL-Library.Word"
begin

unbundle bit_operations_syntax

section \<open>Machine model\<close>

text \<open>
  The allocator of \<^verbatim>\<open>mm.c\<close> works on raw memory through casts, so the embedding is a
  byte-addressed memory with explicit bounds. The data model is LP64: \<^verbatim>\<open>size_t\<close> and
  pointers are 64-bit words, \<^verbatim>\<open>int\<close> is a 32-bit word, memory is little-endian.
  \<^verbatim>\<open>NULL\<close> is the address 0 and the failure sentinel \<^verbatim>\<open>(void * )-1\<close> is the word \<open>- 1\<close>.
\<close>

type_synonym addr = "64 word"
type_synonym size_t = "64 word"
type_synonym byte = "8 word"

text \<open>
  Everything ISO C leaves undefined and the claims talk about is a value of \<open>error\<close>:
  an access outside \<open>[lo, hi)\<close>, a read of a local that was never assigned, the use of the
  value of a function that returned without one, and a loop that never exits.
\<close>

datatype error = OutOfHeap addr | Uninitialised | NoReturnValue | Diverges

definition bnd :: "error + 'a \<Rightarrow> ('a \<Rightarrow> error + 'b) \<Rightarrow> error + 'b" where
  "bnd r f = (case r of Inl e \<Rightarrow> Inl e | Inr v \<Rightarrow> f v)"

definition terminated :: "(error + 'a) option \<Rightarrow> error + 'a" where
  "terminated r = (case r of None \<Rightarrow> Inl Diverges | Some v \<Rightarrow> v)"

record heap =
  mem_start_brk :: addr
  mem_brk :: size_t
  mem_max :: size_t
  bytes :: "addr \<Rightarrow> byte"

text \<open>
  Modelled from the spec: the backing allocator (\<^verbatim>\<open>memlib.h\<close>, not part of the sources).
  \<open>mem_brk\<close> is the current byte count of the heap, \<open>mem_max\<close> the largest byte count the
  backing allocator grants. \<open>mem_heap_hi\<close> is the last byte of the heap, \<open>mem_sbrk\<close> extends
  the high end and returns the first new byte, or the failure sentinel when it refuses.
\<close>

definition mem_heap_lo :: "heap \<Rightarrow> addr" where
  "mem_heap_lo h = mem_start_brk h"

definition mem_heapsize :: "heap \<Rightarrow> size_t" where
  "mem_heapsize h = mem_brk h"

definition mem_heap_hi :: "heap \<Rightarrow> addr" where
  "mem_heap_hi h = mem_start_brk h + mem_brk h - 1"

definition mem_sbrk :: "size_t \<Rightarrow> heap \<Rightarrow> addr \<times> heap" where
  "mem_sbrk incr h =
     (if unat (mem_brk h) + unat incr \<le> unat (mem_max h)
      then (mem_start_brk h + mem_brk h, h\<lparr>mem_brk := mem_brk h + incr\<rparr>)
      else (- 1, h))"

subsection \<open>Loads and stores\<close>

definition in_heap :: "heap \<Rightarrow> addr \<Rightarrow> nat \<Rightarrow> bool" where
  "in_heap h a n \<longleftrightarrow>
     unat (mem_start_brk h) \<le> unat a \<and> unat a + n \<le> unat (mem_start_brk h) + unat (mem_brk h)"

definition ld :: "(addr \<Rightarrow> byte) \<Rightarrow> addr \<Rightarrow> 64 word" where
  "ld m a = ucast (m a) OR push_bit 8 (ucast (m (a + 1))) OR push_bit 16 (ucast (m (a + 2)))
     OR push_bit 24 (ucast (m (a + 3))) OR push_bit 32 (ucast (m (a + 4)))
     OR push_bit 40 (ucast (m (a + 5))) OR push_bit 48 (ucast (m (a + 6)))
     OR push_bit 56 (ucast (m (a + 7)))"

definition st :: "(addr \<Rightarrow> byte) \<Rightarrow> addr \<Rightarrow> 64 word \<Rightarrow> (addr \<Rightarrow> byte)" where
  "st m a v = m(a := ucast v, a + 1 := ucast (drop_bit 8 v), a + 2 := ucast (drop_bit 16 v),
     a + 3 := ucast (drop_bit 24 v), a + 4 := ucast (drop_bit 32 v), a + 5 := ucast (drop_bit 40 v),
     a + 6 := ucast (drop_bit 48 v), a + 7 := ucast (drop_bit 56 v))"

definition load64 :: "heap \<Rightarrow> addr \<Rightarrow> error + 64 word" where
  "load64 h a = (if in_heap h a 8 then Inr (ld (bytes h) a) else Inl (OutOfHeap a))"

definition store64 :: "heap \<Rightarrow> addr \<Rightarrow> 64 word \<Rightarrow> error + heap" where
  "store64 h a v = (if in_heap h a 8 then Inr (h\<lparr>bytes := st (bytes h) a v\<rparr>) else Inl (OutOfHeap a))"

text \<open>
  \<^verbatim>\<open>memcpy\<close> as the byte-by-byte forward copy; both ranges must lie in the heap. ISO C
  leaves a copy between overlapping ranges undefined; here it has the value of the forward
  copy, which re-reads bytes it has written when the destination lies above the source.
\<close>

fun copy_bytes :: "(addr \<Rightarrow> byte) \<Rightarrow> addr \<Rightarrow> addr \<Rightarrow> nat \<Rightarrow> (addr \<Rightarrow> byte)" where
  "copy_bytes m dst src 0 = m"
| "copy_bytes m dst src (Suc k) =
     (let m' = copy_bytes m dst src k in m'(dst + of_nat k := m' (src + of_nat k)))"

definition memcpy :: "addr \<Rightarrow> addr \<Rightarrow> size_t \<Rightarrow> heap \<Rightarrow> error + heap" where
  "memcpy dst src n h =
     (if \<not> in_heap h src (unat n) then Inl (OutOfHeap src)
      else if \<not> in_heap h dst (unat n) then Inl (OutOfHeap dst)
      else Inr (h\<lparr>bytes := copy_bytes (bytes h) dst src (unat n)\<rparr>))"

section \<open>Block geometry\<close>

definition ALIGN :: "size_t \<Rightarrow> size_t" where
  "ALIGN sz = (sz + 7) AND NOT 7"

definition PTR_SIZE :: size_t where
  "PTR_SIZE = 8"

definition SIZE_T_SIZE :: size_t where
  "SIZE_T_SIZE = ALIGN 8"

definition BLOCK_HEADER :: int where "BLOCK_HEADER = 0"
definition BLOCK_END :: int where "BLOCK_END = 2"
definition BLOCK_PAYLOAD :: int where "BLOCK_PAYLOAD = 3"
definition BLOCK_FORWARD :: int where "BLOCK_FORWARD = 3"
definition BLOCK_BACKWARD :: int where "BLOCK_BACKWARD = 4"

definition moved_pointer :: "addr \<Rightarrow> size_t \<Rightarrow> int \<Rightarrow> int \<Rightarrow> addr" where
  "moved_pointer point_in blocklen position_point position_wanted =
     (let point =
        (if position_point = BLOCK_END then point_in - blocklen
         else if position_point = BLOCK_FORWARD then point_in - SIZE_T_SIZE
         else if position_point = BLOCK_BACKWARD then point_in - PTR_SIZE - SIZE_T_SIZE
         else point_in)
      in if position_wanted = BLOCK_HEADER then point
         else if position_wanted = BLOCK_END then point + blocklen
         else if position_wanted = BLOCK_FORWARD then point + SIZE_T_SIZE
         else point + SIZE_T_SIZE + PTR_SIZE)"

section \<open>mm_malloc\<close>

text \<open>
  The local \<^verbatim>\<open>size_act\<close> is declared without an initialiser and assigned only inside the
  scan loop. It is modelled as an \<open>option\<close>; what a read of the unassigned local yields is
  a parameter of the model: \<open>Trap\<close> makes the read an error, \<open>Garbage g\<close> makes it return
  whatever value \<open>g\<close> the stack slot happens to hold.
\<close>

datatype indet = Trap | Garbage size_t

definition read_local :: "indet \<Rightarrow> size_t option \<Rightarrow> error + size_t" where
  "read_local junk v = (case v of Some x \<Rightarrow> Inr x
      | None \<Rightarrow> (case junk of Trap \<Rightarrow> Inl Uninitialised | Garbage g \<Rightarrow> Inr g))"

text \<open>\<^verbatim>\<open>pow(16, SIZE_T_SIZE) - 1\<close>, the initial value of \<^verbatim>\<open>best_s\<close>.\<close>

definition best_s_init :: size_t where
  "best_s_init = 16 ^ unat SIZE_T_SIZE - 1"

text \<open>
  The \<^verbatim>\<open>while (1)\<close> loop of the best-fit scan (lines 285-306). The result is the final
  \<open>(current_pos, size_act, best_p, best_s)\<close>. The end of the loop body, the test of the
  forward link and the step to the next block (lines 301-304), is written out in both
  branches that reach it: after a new candidate was recorded, and after a block that is
  neither a candidate nor an exact match.
\<close>

partial_function (option) scan_loop ::
  "heap \<Rightarrow> size_t \<Rightarrow> addr \<Rightarrow> addr \<Rightarrow> size_t \<Rightarrow> (error + addr \<times> size_t \<times> addr \<times> size_t) option" where
  "scan_loop h newsize current_pos best_p best_s =
     (case load64 h (moved_pointer current_pos 0 BLOCK_FORWARD BLOCK_HEADER) of
        Inl e \<Rightarrow> Some (Inl e)
      | Inr size_act \<Rightarrow>
          if size_act > newsize \<and> size_act < best_s then
            (case load64 h current_pos of
               Inl e \<Rightarrow> Some (Inl e)
             | Inr nxt \<Rightarrow>
                 if nxt = 0 then Some (Inr (current_pos, size_act, current_pos, size_act))
                 else scan_loop h newsize nxt current_pos size_act)
          else if size_act = newsize then Some (Inr (current_pos, size_act, current_pos, size_act))
          else
            (case load64 h current_pos of
               Inl e \<Rightarrow> Some (Inl e)
             | Inr nxt \<Rightarrow>
                 if nxt = 0 then Some (Inr (current_pos, size_act, best_p, best_s))
                 else scan_loop h newsize nxt best_p best_s))"

text \<open>The first call, on a heap of size 0 (lines 256-272).\<close>

definition first_call :: "size_t \<Rightarrow> heap \<Rightarrow> error + addr \<times> heap" where
  "first_call newsize h =
     (let (r, h1) = mem_sbrk (newsize + PTR_SIZE) h;
          p0 = r + PTR_SIZE;
          (p, h2) = (if ALIGN p0 \<noteq> p0 then (ALIGN p0, snd (mem_sbrk (ALIGN p0 - p0) h1)) else (p0, h1))
      in bnd (store64 h2 (mem_heap_lo h2) 0) (\<lambda>h3.
           if p = - 1 then Inr (0, h3)
           else bnd (store64 h3 p (newsize + 1)) (\<lambda>h4.
             Inr (moved_pointer p newsize BLOCK_HEADER BLOCK_PAYLOAD, h4))))"

text \<open>No fit was found (lines 309-345).\<close>

definition no_fit :: "indet \<Rightarrow> size_t \<Rightarrow> addr \<Rightarrow> size_t option \<Rightarrow> heap \<Rightarrow> error + addr \<times> heap" where
  "no_fit junk newsize current_pos size_act h =
     bnd (read_local junk size_act) (\<lambda>sa.
       if moved_pointer current_pos sa BLOCK_FORWARD BLOCK_END = mem_heap_hi h + 1 then
         (let h1 = snd (mem_sbrk (newsize - sa) h);
              before = moved_pointer current_pos 0 BLOCK_FORWARD BLOCK_BACKWARD
          in bnd (load64 h1 before) (\<lambda>bw.
             bnd (if bw \<noteq> 0 then store64 h1 (moved_pointer bw 0 BLOCK_BACKWARD BLOCK_FORWARD) 0
                  else store64 h1 (mem_heap_lo h1) 0) (\<lambda>h2.
               let p = moved_pointer current_pos 0 BLOCK_FORWARD BLOCK_HEADER
               in if p = - 1 then Inr (0, h2)
                  else bnd (store64 h2 p (newsize + 1)) (\<lambda>h3.
                    Inr (moved_pointer p newsize BLOCK_HEADER BLOCK_PAYLOAD, h3)))))
       else
         (let (p, h1) = mem_sbrk newsize h
          in if p = - 1 then Inr (0, h1)
             else bnd (store64 h1 p (newsize + 1)) (\<lambda>h2.
               Inr (moved_pointer p newsize BLOCK_HEADER BLOCK_PAYLOAD, h2))))"

text \<open>A fit was found: split it or consume it whole (lines 349-379).\<close>

definition take_fit :: "size_t \<Rightarrow> addr \<Rightarrow> size_t \<Rightarrow> heap \<Rightarrow> error + addr \<times> heap" where
  "take_fit newsize best_p best_s h =
     (if best_s - newsize \<ge> SIZE_T_SIZE + 2 * PTR_SIZE then
        bnd (store64 h (moved_pointer best_p newsize BLOCK_FORWARD BLOCK_HEADER) (best_s - newsize)) (\<lambda>h1.
          let best_p' = best_p + best_s - newsize
          in bnd (store64 h1 (moved_pointer best_p' newsize BLOCK_FORWARD BLOCK_HEADER) (newsize + 1)) (\<lambda>h2.
            Inr (best_p', h2)))
      else
        (let newsize' = best_s
         in bnd (load64 h (moved_pointer best_p newsize' BLOCK_FORWARD BLOCK_BACKWARD)) (\<lambda>bw.
            bnd (load64 h best_p) (\<lambda>fw.
            bnd (if bw \<noteq> 0 then store64 h (moved_pointer bw 0 BLOCK_BACKWARD BLOCK_FORWARD) fw
                 else store64 h (mem_heap_lo h) fw) (\<lambda>h1.
            bnd (load64 h1 best_p) (\<lambda>fw1.
            bnd (if fw1 \<noteq> 0 then
                   bnd (load64 h1 (moved_pointer best_p newsize' BLOCK_FORWARD BLOCK_BACKWARD)) (\<lambda>bw1.
                     store64 h1 (moved_pointer fw1 0 BLOCK_FORWARD BLOCK_BACKWARD) bw1)
                 else Inr h1) (\<lambda>h2.
            bnd (store64 h2 (moved_pointer best_p newsize' BLOCK_FORWARD BLOCK_HEADER) (newsize' + 1)) (\<lambda>h3.
              Inr (best_p, h3)))))))))"

text \<open>
  The block size of a request (lines 249-254). The cast to \<^verbatim>\<open>int\<close> keeps the low 32 bits;
  the comparison with an unsigned operand converts them back to \<^verbatim>\<open>size_t\<close>, sign-extended.
\<close>

definition request_block_size :: "size_t \<Rightarrow> size_t" where
  "request_block_size size0 =
     (let sz = (if (scast (ucast size0 :: 32 word) :: 64 word) < 2 * PTR_SIZE then 2 * PTR_SIZE else size0)
      in ALIGN (sz + SIZE_T_SIZE))"

definition mm_malloc :: "indet \<Rightarrow> size_t \<Rightarrow> heap \<Rightarrow> error + addr \<times> heap" where
  "mm_malloc junk size0 h =
     (let newsize = request_block_size size0
      in if mem_heapsize h = 0 then first_call newsize h
         else
           bnd (load64 h (mem_heap_lo h)) (\<lambda>first.
           bnd (if first \<noteq> 0 then
                  bnd (terminated (scan_loop h newsize first 0 best_s_init)) (\<lambda>(current_pos, size_act, best_p, best_s).
                    Inr (current_pos, Some size_act, best_p, best_s))
                else Inr (mem_heap_lo h, None, 0, best_s_init)) (\<lambda>(current_pos, size_act, best_p, best_s).
             if best_p = 0 then no_fit junk newsize current_pos size_act h
             else take_fit newsize best_p best_s h)))"

section \<open>mm_free\<close>

text \<open>
  Coalescing with the block after (lines 411-425 and again lines 466-481): when
  \<open>after_block\<close> starts where the block of \<open>ptr\<close> ends, \<open>ptr\<close> takes its size and its
  forward link.
\<close>

definition coalesce_after :: "addr \<Rightarrow> addr \<Rightarrow> heap \<Rightarrow> error + heap" where
  "coalesce_after ptr after_block h =
     bnd (load64 h (moved_pointer ptr 0 BLOCK_FORWARD BLOCK_HEADER)) (\<lambda>ptr_size.
       if moved_pointer after_block 0 BLOCK_FORWARD BLOCK_HEADER
            = moved_pointer ptr ptr_size BLOCK_FORWARD BLOCK_END then
         bnd (load64 h (moved_pointer after_block 0 BLOCK_FORWARD BLOCK_HEADER)) (\<lambda>after_size.
           let new_block_size = ptr_size + after_size
           in bnd (store64 h (moved_pointer ptr 0 BLOCK_FORWARD BLOCK_HEADER) new_block_size) (\<lambda>h1.
              bnd (load64 h1 after_block) (\<lambda>after_fw.
              bnd (store64 h1 ptr after_fw) (\<lambda>h2.
              bnd (load64 h2 ptr) (\<lambda>fw.
                if fw \<noteq> 0 then
                  store64 h2 (moved_pointer fw 0 BLOCK_FORWARD BLOCK_BACKWARD)
                    (moved_pointer ptr 0 BLOCK_FORWARD BLOCK_BACKWARD)
                else Inr h2)))))
       else Inr h)"

text \<open>
  Coalescing with the block before (lines 448-462); the result carries the new value of
  the local \<open>ptr\<close>.
\<close>

definition coalesce_before :: "addr \<Rightarrow> addr \<Rightarrow> addr \<Rightarrow> heap \<Rightarrow> error + addr \<times> heap" where
  "coalesce_before before_block after_block ptr h =
     bnd (load64 h (moved_pointer before_block 0 BLOCK_FORWARD BLOCK_HEADER)) (\<lambda>before_size.
       if moved_pointer ptr 0 BLOCK_FORWARD BLOCK_HEADER
            = moved_pointer before_block before_size BLOCK_FORWARD BLOCK_END then
         bnd (load64 h (moved_pointer ptr 0 BLOCK_FORWARD BLOCK_HEADER)) (\<lambda>ptr_size.
           let new_block_size = before_size + ptr_size
           in bnd (store64 h (moved_pointer before_block 0 BLOCK_FORWARD BLOCK_HEADER) new_block_size) (\<lambda>h1.
              bnd (store64 h1 before_block after_block) (\<lambda>h2.
              bnd (store64 h2 (moved_pointer after_block 0 BLOCK_FORWARD BLOCK_BACKWARD)
                     (moved_pointer before_block 0 BLOCK_FORWARD BLOCK_BACKWARD)) (\<lambda>h3.
                Inr (before_block, h3)))))
       else Inr (ptr, h))"

text \<open>The body of the \<^verbatim>\<open>if\<close> inside the \<^verbatim>\<open>while\<close> loop (lines 438-483).\<close>

definition insert_between :: "addr \<Rightarrow> addr \<Rightarrow> addr \<Rightarrow> heap \<Rightarrow> error + heap" where
  "insert_between before_block after_block ptr h =
     bnd (store64 h before_block ptr) (\<lambda>h1.
     bnd (store64 h1 (moved_pointer after_block 0 BLOCK_FORWARD BLOCK_BACKWARD)
            (moved_pointer ptr 0 BLOCK_FORWARD BLOCK_BACKWARD)) (\<lambda>h2.
     bnd (store64 h2 ptr after_block) (\<lambda>h3.
     bnd (store64 h3 (moved_pointer ptr 0 BLOCK_FORWARD BLOCK_BACKWARD)
            (moved_pointer before_block 0 BLOCK_FORWARD BLOCK_BACKWARD)) (\<lambda>h4.
     bnd (coalesce_before before_block after_block ptr h4) (\<lambda>(ptr', h5).
       coalesce_after ptr' after_block h5)))))"

text \<open>
  The \<^verbatim>\<open>while\<close> loop (lines 435-485). \<open>Inl h'\<close>: the block was inserted and the function
  returned from inside the loop; \<open>Inr before_block\<close>: the loop ran to the end of the list.
\<close>

partial_function (option) free_loop :: "heap \<Rightarrow> addr \<Rightarrow> addr \<Rightarrow> (error + heap + addr) option" where
  "free_loop h before_block ptr =
     (case load64 h before_block of
        Inl e \<Rightarrow> Some (Inl e)
      | Inr nxt \<Rightarrow>
          if nxt \<noteq> 0 then
            (if nxt > ptr then
               Some (bnd (insert_between before_block nxt ptr h) (\<lambda>h'. Inr (Inl h')))
             else free_loop h nxt ptr)
          else Some (Inr (Inr before_block)))"

text \<open>The block goes to the end of the list (lines 489-514).\<close>

definition append_block :: "bool \<Rightarrow> addr \<Rightarrow> addr \<Rightarrow> heap \<Rightarrow> error + heap" where
  "append_block list_empty before_block ptr h =
     bnd (if list_empty then
            bnd (store64 h before_block ptr) (\<lambda>h1.
            bnd (store64 h1 (moved_pointer ptr 0 BLOCK_FORWARD BLOCK_BACKWARD) 0) (\<lambda>h2.
              Inr (ptr, h2)))
          else
            bnd (load64 h (moved_pointer before_block 0 BLOCK_FORWARD BLOCK_HEADER)) (\<lambda>before_size.
              if moved_pointer ptr 0 BLOCK_FORWARD BLOCK_HEADER
                   = moved_pointer before_block before_size BLOCK_FORWARD BLOCK_END then
                bnd (load64 h (moved_pointer ptr 0 BLOCK_FORWARD BLOCK_HEADER)) (\<lambda>ptr_size.
                  let new_block_size = before_size + ptr_size
                  in bnd (store64 h (moved_pointer before_block 0 BLOCK_FORWARD BLOCK_HEADER) new_block_size) (\<lambda>h1.
                     bnd (store64 h1 before_block 0) (\<lambda>h2.
                       Inr (before_block, h2))))
              else
                bnd (store64 h before_block ptr) (\<lambda>h1.
                bnd (store64 h1 (moved_pointer ptr 0 BLOCK_FORWARD BLOCK_BACKWARD)
                       (moved_pointer before_block 0 BLOCK_FORWARD BLOCK_BACKWARD)) (\<lambda>h2.
                  Inr (ptr, h2))))) (\<lambda>(ptr', h3).
       store64 h3 ptr' 0)"

definition mm_free :: "addr \<Rightarrow> heap \<Rightarrow> error + heap" where
  "mm_free ptr h0 =
     bnd (load64 h0 (moved_pointer ptr 0 BLOCK_FORWARD BLOCK_HEADER)) (\<lambda>hdr.
       let free_size = hdr AND NOT 1
       in bnd (store64 h0 (moved_pointer ptr free_size BLOCK_FORWARD BLOCK_HEADER) free_size) (\<lambda>h.
          let before_block = mem_heap_lo h
          in bnd (load64 h before_block) (\<lambda>first.
               if first \<noteq> 0 \<and> first > ptr then
                 (let after_block = first
                  in bnd (store64 h before_block ptr) (\<lambda>h1.
                     bnd (store64 h1 (moved_pointer after_block 0 BLOCK_FORWARD BLOCK_BACKWARD)
                            (moved_pointer ptr 0 BLOCK_FORWARD BLOCK_BACKWARD)) (\<lambda>h2.
                     bnd (store64 h2 ptr after_block) (\<lambda>h3.
                     bnd (store64 h3 (moved_pointer ptr 0 BLOCK_FORWARD BLOCK_BACKWARD) 0) (\<lambda>h4.
                       coalesce_after ptr after_block h4)))))
               else
                 (let list_empty = (first = 0);
                      before_block = (if first \<noteq> 0 then first else before_block)
                  in bnd (terminated (free_loop h before_block ptr)) (\<lambda>r.
                       case r of
                         Inl h' \<Rightarrow> Inr h'
                       | Inr before_block \<Rightarrow> append_block list_empty before_block ptr h)))))"

section \<open>mm_realloc\<close>

text \<open>
  Growing in place into a free successor (lines 553-626). The cast to \<^verbatim>\<open>int\<close> of the
  remainder is converted back to \<^verbatim>\<open>size_t\<close> by the comparison with an unsigned operand.
\<close>

definition grow_split :: "addr \<Rightarrow> size_t \<Rightarrow> size_t \<Rightarrow> addr \<Rightarrow> size_t \<Rightarrow> heap \<Rightarrow> error + heap" where
  "grow_split ptr asked_block_size current_size next_block_header next_block_size h =
     bnd (load64 h (moved_pointer next_block_header next_block_size BLOCK_HEADER BLOCK_FORWARD)) (\<lambda>next_forward.
     bnd (load64 h (moved_pointer next_block_header next_block_size BLOCK_HEADER BLOCK_BACKWARD)) (\<lambda>next_backward.
     bnd (store64 h (moved_pointer ptr 0 BLOCK_PAYLOAD BLOCK_HEADER) (asked_block_size + 1)) (\<lambda>h1.
       let new_free_block_head = moved_pointer ptr asked_block_size BLOCK_PAYLOAD BLOCK_END;
           new_free_block = moved_pointer new_free_block_head 0 BLOCK_HEADER BLOCK_FORWARD;
           new_free_block_backward = moved_pointer new_free_block_head 0 BLOCK_HEADER BLOCK_BACKWARD;
           new_free_size = next_block_size - (asked_block_size - current_size)
       in bnd (store64 h1 new_free_block_head new_free_size) (\<lambda>h2.
          bnd (store64 h2 (moved_pointer new_free_block_head new_free_size BLOCK_HEADER BLOCK_FORWARD) next_forward) (\<lambda>h3.
          bnd (store64 h3 (moved_pointer new_free_block_head new_free_size BLOCK_HEADER BLOCK_BACKWARD) next_backward) (\<lambda>h4.
          bnd (if next_forward \<noteq> 0 then
                 bnd (load64 h4 (moved_pointer next_forward 0 BLOCK_FORWARD BLOCK_HEADER)) (\<lambda>next_forward_size.
                   store64 h4 (moved_pointer next_forward next_forward_size BLOCK_FORWARD BLOCK_BACKWARD)
                     new_free_block_backward)
               else Inr h4) (\<lambda>h5.
            if next_backward \<noteq> 0 then
              store64 h5 (moved_pointer next_backward 0 BLOCK_BACKWARD BLOCK_FORWARD) new_free_block
            else store64 h5 (mem_heap_lo h5) new_free_block)))))))"

definition grow_absorb :: "addr \<Rightarrow> size_t \<Rightarrow> addr \<Rightarrow> size_t \<Rightarrow> heap \<Rightarrow> error + heap" where
  "grow_absorb ptr current_size next_block_header next_block_size h =
     bnd (load64 h (moved_pointer next_block_header next_block_size BLOCK_HEADER BLOCK_FORWARD)) (\<lambda>next_forward.
     bnd (load64 h (moved_pointer next_block_header next_block_size BLOCK_HEADER BLOCK_BACKWARD)) (\<lambda>next_backward.
     bnd (store64 h (moved_pointer ptr 0 BLOCK_PAYLOAD BLOCK_HEADER) (current_size + next_block_size + 1)) (\<lambda>h1.
     bnd (if next_forward \<noteq> 0 then
            store64 h1 (moved_pointer next_forward 0 BLOCK_FORWARD BLOCK_BACKWARD) next_backward
          else Inr h1) (\<lambda>h2.
       if next_backward \<noteq> 0 then
         store64 h2 (moved_pointer next_backward 0 BLOCK_BACKWARD BLOCK_FORWARD) next_forward
       else store64 h2 (mem_heap_lo h2) 0))))"

text \<open>
  The fallback (lines 635-655). The local \<^verbatim>\<open>copySize\<close> is computed from the first word
  of the old payload but never used: \<^verbatim>\<open>memcpy\<close> is called with \<^verbatim>\<open>asked_size\<close>.
\<close>

definition realloc_fallback :: "indet \<Rightarrow> addr \<Rightarrow> size_t \<Rightarrow> heap \<Rightarrow> error + addr \<times> heap" where
  "realloc_fallback junk ptr asked_size h =
     (let oldptr = ptr
      in bnd (mm_malloc junk asked_size h) (\<lambda>(newptr, h1).
           if newptr = 0 then Inr (0, h1)
           else
             bnd (load64 h1 oldptr) (\<lambda>copySize.
             bnd (memcpy newptr oldptr asked_size h1) (\<lambda>h2.
             bnd (mm_free oldptr h2) (\<lambda>h3.
               Inr (newptr, h3))))))"

definition mm_realloc :: "indet \<Rightarrow> addr \<Rightarrow> size_t \<Rightarrow> heap \<Rightarrow> error + addr \<times> heap" where
  "mm_realloc junk ptr asked_size h =
     (if ptr = 0 then mm_malloc junk asked_size h
      else if asked_size = 0 then bnd (mm_free ptr h) (\<lambda>h'. Inr (ptr, h'))
      else
        (let asked_block_size = ALIGN (asked_size + SIZE_T_SIZE)
         in bnd (load64 h (moved_pointer ptr 0 BLOCK_PAYLOAD BLOCK_HEADER)) (\<lambda>hdr.
              let current_size = hdr - 1
              in if asked_block_size \<le> current_size then Inr (ptr, h)
                 else
                   (let next_block_header = moved_pointer ptr current_size BLOCK_PAYLOAD BLOCK_END
                    in bnd (load64 h next_block_header) (\<lambda>next_block_size.
                         if current_size < asked_block_size
                            \<and> next_block_header \<noteq> mem_heap_hi h + 1
                            \<and> next_block_size AND 1 = 0
                            \<and> asked_block_size - current_size \<le> next_block_size then
                           bnd (if (scast (ucast (next_block_size - (asked_block_size - current_size)) :: 32 word) :: 64 word)
                                     \<ge> SIZE_T_SIZE + 2 * PTR_SIZE
                                then grow_split ptr asked_block_size current_size next_block_header next_block_size h
                                else grow_absorb ptr current_size next_block_header next_block_size h) (\<lambda>h'.
                             Inr (ptr, h'))
                         else if next_block_header = mem_heap_hi h + 1 then
                           (let h1 = snd (mem_sbrk (asked_block_size - current_size) h)
                            in bnd (store64 h1 (moved_pointer ptr 0 BLOCK_PAYLOAD BLOCK_HEADER) (asked_block_size + 1)) (\<lambda>h2.
                                 Inr (ptr, h2)))
                         else realloc_fallback junk ptr asked_size h)))))"

section \<open>The checker\<close>

text \<open>
  Both functions are modelled for \<^verbatim>\<open>verbose = 0\<close>, the way \<^verbatim>\<open>mm_check\<close> calls them; the
  messages printed on a violation are left out. The loop of \<^verbatim>\<open>free_list_debug\<close>
  (lines 114-156) carries \<open>pos\<close>, \<open>prevpos\<close> and \<open>prevsize\<close>.
\<close>

partial_function (option) debug_loop :: "heap \<Rightarrow> addr \<Rightarrow> addr \<Rightarrow> size_t \<Rightarrow> (error + int) option" where
  "debug_loop h pos prevpos prevsize =
     (if pos \<noteq> 0 then
        (case load64 h (moved_pointer pos 0 BLOCK_FORWARD BLOCK_HEADER) of
           Inl e \<Rightarrow> Some (Inl e)
         | Inr sz \<Rightarrow>
            (case (if prevpos \<noteq> 0 then load64 h (moved_pointer pos 0 BLOCK_FORWARD BLOCK_BACKWARD) else Inr 0) of
               Inl e \<Rightarrow> Some (Inl e)
             | Inr bw \<Rightarrow>
                 if prevpos \<noteq> 0 \<and> bw \<noteq> moved_pointer prevpos 0 BLOCK_FORWARD BLOCK_BACKWARD then Some (Inr 0)
                 else if sz mod 2 = 1 then Some (Inr 0)
                 else if pos \<le> prevpos then Some (Inr 0)
                 else if prevpos \<noteq> 0 \<and> moved_pointer prevpos prevsize BLOCK_FORWARD BLOCK_END
                            = moved_pointer pos 0 BLOCK_FORWARD BLOCK_HEADER then Some (Inr 0)
                 else
                   (case load64 h pos of
                      Inl e \<Rightarrow> Some (Inl e)
                    | Inr nxt \<Rightarrow> debug_loop h nxt pos sz)))
      else Some (Inr 1))"

text \<open>
  \<^verbatim>\<open>free_list_debug\<close> leaves through a \<^verbatim>\<open>return;\<close> without a value when the list is empty
  or its first block has no successor: the result is then \<open>None\<close>.
\<close>

definition free_list_debug :: "heap \<Rightarrow> error + int option" where
  "free_list_debug h =
     bnd (load64 h (mem_heap_lo h)) (\<lambda>pos.
     bnd (if pos = 0 then Inr True else bnd (load64 h pos) (\<lambda>fw. Inr (fw = 0))) (\<lambda>leave.
       if leave then Inr None
       else bnd (terminated (debug_loop h pos 0 0)) (\<lambda>r. Inr (Some r))))"

text \<open>The loop of \<^verbatim>\<open>print_heap_blocks\<close> (lines 188-211).\<close>

partial_function (option) blocks_loop :: "heap \<Rightarrow> addr \<Rightarrow> addr \<Rightarrow> addr \<Rightarrow> (error + int) option" where
  "blocks_loop h end_of_heap pos next_free_block =
     (if pos \<noteq> end_of_heap then
        (case load64 h pos of
           Inl e \<Rightarrow> Some (Inl e)
         | Inr current_size_header \<Rightarrow>
             if current_size_header AND 1 \<noteq> 0 then
               blocks_loop h end_of_heap
                 (moved_pointer pos (current_size_header AND NOT 1) BLOCK_HEADER BLOCK_END) next_free_block
             else if next_free_block \<noteq> moved_pointer pos 0 BLOCK_HEADER BLOCK_FORWARD then Some (Inr 0)
             else
               (case load64 h (moved_pointer pos 0 BLOCK_HEADER BLOCK_FORWARD) of
                  Inl e \<Rightarrow> Some (Inl e)
                | Inr fw \<Rightarrow>
                    blocks_loop h end_of_heap
                      (moved_pointer pos (current_size_header AND NOT 1) BLOCK_HEADER BLOCK_END) fw))
      else Some (Inr 1))"

definition print_heap_blocks :: "heap \<Rightarrow> error + int" where
  "print_heap_blocks h =
     (let pos = ALIGN (mem_heap_lo h + 1)
      in bnd (load64 h pos) (\<lambda>current_size_header.
           if current_size_header = 0 then Inr 2
           else
             bnd (load64 h (mem_heap_lo h)) (\<lambda>next_free_block.
               let end_of_heap = mem_heap_hi h + 1
               in terminated (blocks_loop h end_of_heap pos next_free_block))))"

text \<open>
  \<^verbatim>\<open>mm_check\<close> combines the two results with the bitwise \<^verbatim>\<open>&\<close>; using the value of a call
  that returned without one is an error.
\<close>

definition mm_check :: "heap \<Rightarrow> error + int" where
  "mm_check h =
     bnd (print_heap_blocks h) (\<lambda>a.
     bnd (free_list_debug h) (\<lambda>r.
       case r of None \<Rightarrow> Inl NoReturnValue | Some b \<Rightarrow> Inr (a AND b)))"

definition mm_init :: "heap \<Rightarrow> int" where
  "mm_init h = 0"

section \<open>The heap as a sequence of blocks\<close>

text \<open>
  The physical walk over the heap that the spec describes (sections 3.1 and 8): starting at
  the first block, each header gives the size of its block and thereby the next header,
  until \<open>hi + 1\<close> is reached. An entry is \<open>(header address, size, free)\<close>. The walk is
  bounded by a number of blocks; \<open>None\<close> means that the walk leaves the heap or needs more
  blocks than that.
\<close>

fun blocks_from :: "nat \<Rightarrow> heap \<Rightarrow> addr \<Rightarrow> (addr \<times> size_t \<times> bool) list option" where
  "blocks_from 0 h pos = (if pos = mem_heap_hi h + 1 then Some [] else None)"
| "blocks_from (Suc k) h pos =
     (if pos = mem_heap_hi h + 1 then Some []
      else case load64 h pos of
             Inl e \<Rightarrow> None
           | Inr hdr \<Rightarrow>
               map_option (\<lambda>bs. (pos, hdr AND NOT 1, hdr AND 1 = 0) # bs)
                 (blocks_from k h (pos + (hdr AND NOT 1))))"

text \<open>Two free blocks are physically adjacent: the first ends where the second starts.\<close>

fun has_adjacent_free :: "(addr \<times> size_t \<times> bool) list \<Rightarrow> bool" where
  "has_adjacent_free ((a, s, f) # (b, t, g) # bs) =
     ((f \<and> g \<and> a + s = b) \<or> has_adjacent_free ((b, t, g) # bs))"
| "has_adjacent_free bs = False"

section \<open>The free list\<close>

text \<open>
  The free list as the spec describes it (section 3.3), for the 8-byte words of this
  machine model. \<open>heap_ok\<close>: the region of the backing allocator does not wrap around the
  address space. \<open>fl_ok h slot pbw pb xs\<close>: the word at \<open>slot\<close> starts a chain of forward
  links through the payload addresses of \<open>xs\<close>, ending in \<^verbatim>\<open>NULL\<close>; each block carries its
  size in the header, with the flag clear, and the backward link \<open>pbw\<close> to the
  backward-link slot of its predecessor (\<^verbatim>\<open>NULL\<close> for the first); the blocks have at least
  24 bytes, lie in the heap, and come in increasing address order without overlap
  (\<open>pb\<close> is the lowest payload address allowed for the next block).
\<close>

definition heap_ok :: "heap \<Rightarrow> bool" where
  "heap_ok h \<longleftrightarrow> unat (mem_start_brk h) + unat (mem_max h) < 2 ^ 64 \<and> unat (mem_brk h) \<le> unat (mem_max h)"

fun fl_ok :: "heap \<Rightarrow> addr \<Rightarrow> addr \<Rightarrow> nat \<Rightarrow> (addr \<times> size_t) list \<Rightarrow> bool" where
  "fl_ok h slot pbw pb [] = (load64 h slot = Inr 0)"
| "fl_ok h slot pbw pb ((n, s) # xs) =
     (load64 h slot = Inr n \<and> pb \<le> unat n \<and>
      load64 h (moved_pointer n 0 BLOCK_FORWARD BLOCK_HEADER) = Inr s \<and>
      load64 h (moved_pointer n 0 BLOCK_FORWARD BLOCK_BACKWARD) = Inr pbw \<and>
      s AND 1 = 0 \<and> 24 \<le> unat s \<and>
      unat n + unat s \<le> unat (mem_start_brk h) + unat (mem_brk h) + 8 \<and>
      fl_ok h n (moved_pointer n 0 BLOCK_FORWARD BLOCK_BACKWARD) (unat n + unat s) xs)"

definition free_list :: "heap \<Rightarrow> (addr \<times> size_t) list \<Rightarrow> bool" where
  "free_list h xs \<longleftrightarrow> heap_ok h \<and> fl_ok h (mem_heap_lo h) 0 (unat (mem_heap_lo h) + 16) xs"

text \<open>
  Best fit as the spec states it (glossary, and step 3 of the allocation algorithm): the
  free block whose size is smallest but not less than the requested block size, the first
  one on the list when several have that size.
\<close>

fun best_fit :: "size_t \<Rightarrow> (addr \<times> size_t) list \<Rightarrow> (addr \<times> size_t) option" where
  "best_fit newsize [] = None"
| "best_fit newsize ((n, s) # xs) =
     (case best_fit newsize xs of
        None \<Rightarrow> (if newsize \<le> s then Some (n, s) else None)
      | Some (m, t) \<Rightarrow> (if newsize \<le> s \<and> s \<le> t then Some (n, s) else Some (m, t)))"

text \<open>The candidate kept so far, against the best fit of the blocks still to come.\<close>

fun better :: "addr \<times> size_t \<Rightarrow> (addr \<times> size_t) option \<Rightarrow> addr \<times> size_t" where
  "better (bp, bs) None = (bp, bs)"
| "better (bp, bs) (Some (m, t)) = (if t < bs then (m, t) else (bp, bs))"

text \<open>
  Freeing as the spec states it (section 4.3), on the list of free blocks with their
  payload addresses and sizes. The block goes between \<open>before\<close>, the last free block below
  it, and \<open>after\<close>, the first free block above it. It is merged with \<open>before\<close> when \<open>before\<close>
  ends where the block starts, and the result is merged with \<open>after\<close> when it ends where
  \<open>after\<close> starts (\<open>coalesce_succ\<close>).
\<close>

fun coalesce_succ :: "addr \<times> size_t \<Rightarrow> (addr \<times> size_t) list \<Rightarrow> (addr \<times> size_t) list" where
  "coalesce_succ (p, s) [] = [(p, s)]"
| "coalesce_succ (p, s) ((a, t) # ys) = (if p + s = a then (p, s + t) # ys else (p, s) # (a, t) # ys)"

fun free_insert :: "addr \<times> size_t \<Rightarrow> (addr \<times> size_t) list \<Rightarrow> (addr \<times> size_t) list" where
  "free_insert (p, s) [] = [(p, s)]"
| "free_insert (p, s) ((n, t) # xs) =
     (if p < n then coalesce_succ (p, s) ((n, t) # xs)
      else if xs = [] \<or> p < fst (hd xs) then
        (if n + t = p then coalesce_succ (n, t + s) xs else (n, t) # coalesce_succ (p, s) xs)
      else (n, t) # free_insert (p, s) xs)"

text \<open>
  What a call of \<^verbatim>\<open>mm_free\<close> or \<^verbatim>\<open>mm_realloc\<close> may assume of its argument. \<open>allocated_block\<close>:
  the word before \<open>ptr\<close> is the header of an allocated block of \<open>s\<close> bytes (the size with the
  flag set), of at least the minimum size, that lies in the heap above the list-head slot.
  \<open>apart\<close>: that block overlaps no block of the free list.
\<close>

definition allocated_block :: "heap \<Rightarrow> addr \<Rightarrow> size_t \<Rightarrow> bool" where
  "allocated_block h ptr s \<longleftrightarrow>
     load64 h (moved_pointer ptr 0 BLOCK_PAYLOAD BLOCK_HEADER) = Inr (s + 1) \<and> s AND 1 = 0 \<and>
     24 \<le> unat s \<and> unat (mem_heap_lo h) + 16 \<le> unat ptr \<and>
     unat ptr + unat s \<le> unat (mem_start_brk h) + unat (mem_brk h) + 8"

definition apart :: "addr \<Rightarrow> size_t \<Rightarrow> (addr \<times> size_t) list \<Rightarrow> bool" where
  "apart ptr s xs \<longleftrightarrow>
     (\<forall>(n, t) \<in> set xs. unat n + unat t \<le> unat ptr \<or> unat ptr + unat s \<le> unat n)"


section \<open>Concrete heaps and runs\<close>

text \<open>
  A backing region at address 65536 that grants up to \<open>mx\<close> bytes. \<open>writes m kvs\<close> is the
  memory \<open>m\<close> after the 8-byte stores \<open>kvs\<close>, in that order.
\<close>

definition zero_bytes :: "addr \<Rightarrow> byte" where
  "zero_bytes = (\<lambda>a. 0)"

definition writes :: "(addr \<Rightarrow> byte) \<Rightarrow> (addr \<times> 64 word) list \<Rightarrow> (addr \<Rightarrow> byte)" where
  "writes m kvs = foldl (\<lambda>m (a, v). st m a v) m kvs"

definition mk_heap :: "size_t \<Rightarrow> size_t \<Rightarrow> (addr \<Rightarrow> byte) \<Rightarrow> heap" where
  "mk_heap mx brk m = \<lparr>mem_start_brk = 65536, mem_brk = brk, mem_max = mx, bytes = m\<rparr>"

definition empty_heap :: heap where
  "empty_heap = mk_heap 1048576 0 zero_bytes"

text \<open>One allocated block of 120 bytes, the state after \<^verbatim>\<open>mm_malloc(112)\<close> on the empty heap.\<close>

definition one_block_heap :: "size_t \<Rightarrow> heap" where
  "one_block_heap mx = mk_heap mx 128 (writes zero_bytes [(65536, 0), (65544, 121)])"

text \<open>
  A run that ends with two adjacent free blocks. After the four allocations the heap is
  \<open>m4 | m3 | m2 | m1\<close>; freeing \<open>m3\<close> and \<open>m1\<close> gives the free list \<open>[m3, m1]\<close>; growing \<open>m4\<close>
  by 16 bytes absorbs \<open>m3\<close>, the first list element; then \<open>m2\<close> is freed.
\<close>

definition lost_list_run :: "heap \<Rightarrow> error + heap" where
  "lost_list_run h0 =
     bnd (mm_malloc Trap 112 h0) (\<lambda>(p0, h1).
     bnd (mm_free p0 h1) (\<lambda>h2.
     bnd (mm_malloc Trap 16 h2) (\<lambda>(m1, h3).
     bnd (mm_malloc Trap 16 h3) (\<lambda>(m2, h4).
     bnd (mm_malloc Trap 16 h4) (\<lambda>(m3, h5).
     bnd (mm_malloc Trap 40 h5) (\<lambda>(m4, h6).
     bnd (mm_free m3 h6) (\<lambda>h7.
     bnd (mm_free m1 h7) (\<lambda>h8.
     bnd (mm_realloc Trap m4 56 h8) (\<lambda>(m4', h9).
     mm_free m2 h9)))))))))"

definition lost_list_final :: heap where
  "lost_list_final = mk_heap 1048576 128 (writes zero_bytes [(65536, 0), (65544, 121), (65544, 120), (65536, 65552), (65560, 0), (65552, 0), (65544, 96), (65640, 25), (65544, 72), (65616, 25), (65544, 48), (65592, 25), (65536, 0), (65544, 49), (65592, 24), (65536, 65600), (65608, 0), (65600, 0), (65640, 24), (65600, 65648), (65656, 65608), (65648, 0), (65544, 73), (65656, 0), (65536, 0), (65616, 24), (65536, 65624), (65632, 0), (65624, 0)])"

text \<open>
  The same run with one more block \<open>m0\<close> at the high end, which is freed last: the free
  list then has two elements, with the lost free block between them.
\<close>

definition lost_pair_run :: "heap \<Rightarrow> error + heap" where
  "lost_pair_run h0 =
     bnd (mm_malloc Trap 136 h0) (\<lambda>(p0, h1).
     bnd (mm_free p0 h1) (\<lambda>h2.
     bnd (mm_malloc Trap 16 h2) (\<lambda>(m0, h3).
     bnd (mm_malloc Trap 16 h3) (\<lambda>(m1, h4).
     bnd (mm_malloc Trap 16 h4) (\<lambda>(m2, h5).
     bnd (mm_malloc Trap 16 h5) (\<lambda>(m3, h6).
     bnd (mm_malloc Trap 40 h6) (\<lambda>(m4, h7).
     bnd (mm_free m3 h7) (\<lambda>h8.
     bnd (mm_free m1 h8) (\<lambda>h9.
     bnd (mm_realloc Trap m4 56 h9) (\<lambda>(m4', h10).
     bnd (mm_free m2 h10) (\<lambda>h11.
     mm_free m0 h11)))))))))))"

definition lost_pair_final :: heap where
  "lost_pair_final = mk_heap 1048576 152 (writes zero_bytes [(65536, 0), (65544, 145), (65544, 144), (65536, 65552), (65560, 0), (65552, 0), (65544, 120), (65664, 25), (65544, 96), (65640, 25), (65544, 72), (65616, 25), (65544, 48), (65592, 25), (65536, 0), (65544, 49), (65592, 24), (65536, 65600), (65608, 0), (65600, 0), (65640, 24), (65600, 65648), (65656, 65608), (65648, 0), (65544, 73), (65656, 0), (65536, 0), (65616, 24), (65536, 65624), (65632, 0), (65624, 0), (65664, 24), (65624, 65672), (65680, 65632), (65672, 0)])"

text \<open>
  A run in which the backing allocator refuses to grow: it grants 128 bytes in all, the
  first block takes them, is freed, and a larger request follows.
\<close>

definition refused_run :: "heap \<Rightarrow> error + heap \<times> addr \<times> heap" where
  "refused_run h0 =
     bnd (mm_malloc Trap 112 h0) (\<lambda>(p0, h1).
     bnd (mm_free p0 h1) (\<lambda>h2.
     bnd (mm_malloc Trap 200 h2) (\<lambda>(q, h3).
       Inr (h2, q, h3))))"

definition refused_before :: heap where
  "refused_before = mk_heap 128 128 (writes zero_bytes [(65536, 0), (65544, 121), (65544, 120), (65536, 65552), (65560, 0), (65552, 0)])"

definition refused_after :: heap where
  "refused_after = mk_heap 128 128 (writes zero_bytes [(65536, 0), (65544, 121), (65544, 120), (65536, 65552), (65560, 0), (65552, 0), (65536, 0), (65544, 209)])"

text \<open>
  The second end-to-end scenario of the spec: allocate 4096, allocate 16, free the first
  block, allocate 64. The result is the first pointer, the last pointer and the final heap.
\<close>

definition split_on_reuse :: "indet \<Rightarrow> heap \<Rightarrow> error + addr \<times> addr \<times> heap" where
  "split_on_reuse junk h0 =
     bnd (mm_malloc junk 4096 h0) (\<lambda>(a, h1).
     bnd (mm_malloc junk 16 h1) (\<lambda>(b, h2).
     bnd (mm_free a h2) (\<lambda>h3.
     bnd (mm_malloc junk 64 h3) (\<lambda>(c, h4).
       Inr (a, c, h4)))))"

text \<open>
  What the scenario expects of that result: the header of the new block is at the
  original header position of the freed block, and the free list is not empty.
\<close>

definition lands_at_low_end :: "error + addr \<times> addr \<times> heap \<Rightarrow> bool" where
  "lands_at_low_end r =
     (case r of
        Inl e \<Rightarrow> False
      | Inr (a, c, h) \<Rightarrow>
          moved_pointer c 0 BLOCK_PAYLOAD BLOCK_HEADER = moved_pointer a 0 BLOCK_PAYLOAD BLOCK_HEADER
          \<and> load64 h (mem_heap_lo h) \<noteq> Inr 0)"

definition split_final :: "size_t \<Rightarrow> (addr \<Rightarrow> byte) \<Rightarrow> heap" where
  "split_final mx m = mk_heap mx 4136 (writes m [(65536, 0), (65544, 4105), (69648, 25),
     (65544, 4104), (65536, 65552), (65560, 0), (65552, 0), (65544, 4032), (69576, 73)])"

text \<open>
  A run that leaves a free block of \<open>2 ^ 32\<close> bytes between allocated blocks and then asks
  for 200 bytes. The result is the heap before the last call, the pointer it returns and
  the heap after it.
\<close>

definition huge_block_run :: "heap \<Rightarrow> error + heap \<times> addr \<times> heap" where
  "huge_block_run h0 =
     bnd (mm_malloc Trap 112 h0) (\<lambda>(p0, h1).
     bnd (mm_free p0 h1) (\<lambda>h2.
     bnd (mm_malloc Trap 16 h2) (\<lambda>(m1, h3).
     bnd (mm_malloc Trap 4294967288 h3) (\<lambda>(big, h4).
     bnd (mm_malloc Trap 200 h4) (\<lambda>(d, h5).
     bnd (mm_free big h5) (\<lambda>h6.
     bnd (mm_malloc Trap 200 h6) (\<lambda>(q, h7).
       Inr (h6, q, h7))))))))"

definition huge_before :: heap where
  "huge_before = mk_heap 8589934592 4294967632 (writes zero_bytes [(65536, 0), (65544, 121), (65544, 120), (65536, 65552), (65560, 0), (65552, 0), (65544, 96), (65640, 25), (65664, 4294967297), (4295032960, 209), (65664, 4294967296), (65552, 65672), (65680, 65560), (65672, 0)])"

definition huge_after :: heap where
  "huge_after = mk_heap 8589934592 4294967840 (writes zero_bytes [(65536, 0), (65544, 121), (65544, 120), (65536, 65552), (65560, 0), (65552, 0), (65544, 96), (65640, 25), (65664, 4294967297), (4295032960, 209), (65664, 4294967296), (65552, 65672), (65680, 65560), (65672, 0), (4295033168, 209)])"

text \<open>
  A run that reallocates a block of 48 bytes to 4294967301 bytes. The block \<open>b\<close> sits
  between a free block of 24 bytes and an allocated block of more than 4 GiB; the program
  has written the word 12345 at offset 24 of its payload. The result is the heap before
  the reallocation, \<open>b\<close>, the pointer the reallocation returns and the heap after it.
\<close>

definition big_realloc_run :: "heap \<Rightarrow> error + heap \<times> addr \<times> addr \<times> heap" where
  "big_realloc_run h0 =
     bnd (mm_malloc Trap 64 h0) (\<lambda>(p0, h1).
     bnd (mm_free p0 h1) (\<lambda>h2.
     bnd (mm_malloc Trap 40 h2) (\<lambda>(b, h3).
     bnd (mm_malloc Trap 4294967400 h3) (\<lambda>(c, h4).
     bnd (store64 h4 (b + 24) 12345) (\<lambda>h5.
     bnd (mm_realloc Trap b 4294967301 h5) (\<lambda>(q, h6).
       Inr (h5, b, q, h6)))))))"

definition big_before :: heap where
  "big_before = mk_heap 8589934592 4294967488 (writes zero_bytes [(65536, 0), (65544, 73), (65544, 72), (65536, 65552), (65560, 0), (65552, 0), (65544, 24), (65568, 49), (65616, 4294967409), (65600, 12345)])"

definition big_after :: heap where
  "big_after = mk_heap 8589934592 4294967488 (writes (copy_bytes (writes zero_bytes [(65536, 0), (65544, 73), (65544, 72), (65536, 65552), (65560, 0), (65552, 0), (65544, 24), (65568, 49), (65616, 4294967409), (65600, 12345), (65536, 0), (65544, 25)]) 65552 65576 4294967301) [(65568, 0), (65536, 65576), (65584, 0), (65576, 0)])"

text \<open>
  One free block of 120 bytes that ends at \<open>hi\<close>: the state after \<^verbatim>\<open>mm_malloc(112)\<close> and
  \<^verbatim>\<open>mm_free\<close> of the block.
\<close>

definition freed_block_heap :: heap where
  "freed_block_heap = mk_heap 1048576 128 (writes zero_bytes
     [(65536, 0), (65544, 121), (65544, 120), (65536, 65552), (65560, 0), (65552, 0)])"

text \<open>
  The two-sided coalescing scenario of the spec, with requests of 16 bytes. A block of 72
  bytes is allocated and freed; the three allocations carve it into \<open>a | b | c\<close> (\<open>c\<close> is
  allocated first and \<open>a\<close> last, since a split hands out the high end); then \<open>a\<close> and \<open>c\<close> are
  freed. The run returns \<open>b\<close> and the heap, in which \<open>b\<close> lies between two free blocks.
\<close>

definition two_sided_run :: "heap \<Rightarrow> error + addr \<times> heap" where
  "two_sided_run h0 =
     bnd (mm_malloc Trap 64 h0) (\<lambda>(p0, h1).
     bnd (mm_free p0 h1) (\<lambda>h2.
     bnd (mm_malloc Trap 16 h2) (\<lambda>(c, h3).
     bnd (mm_malloc Trap 16 h3) (\<lambda>(b, h4).
     bnd (mm_malloc Trap 16 h4) (\<lambda>(a, h5).
     bnd (mm_free a h5) (\<lambda>h6.
     bnd (mm_free c h6) (\<lambda>h7.
       Inr (b, h7))))))))"

definition two_free_heap :: heap where
  "two_free_heap = mk_heap 1048576 80 (writes zero_bytes 
     [(65536, 0), (65544, 73), (65544, 72), (65536, 65552), (65560, 0), (65552, 0), (65544, 48), (65592, 25), (65544, 24), (65568, 25), (65536, 0), (65544, 25), (65544, 24), (65536, 65552), (65560, 0), (65552, 0), (65592, 24), (65552, 65600), (65608, 65560), (65600, 0)])"


section \<open>Memory lemmas\<close>

lemma take_bit_byte_step:
  fixes w :: "64 word"
  shows "take_bit (k + 8) w = take_bit k w OR push_bit k (ucast (ucast (drop_bit k w) :: byte))"
  by (rule bit_word_eqI) (auto simp add: bit_simps)

lemma byte_decomp: 
  fixes w :: "64 word"
  shows "ucast (ucast w :: byte) OR push_bit 8 (ucast (ucast (drop_bit 8 w) :: byte)) OR push_bit 16 (ucast (ucast (drop_bit 16 w) :: byte))
     OR push_bit 24 (ucast (ucast (drop_bit 24 w) :: byte)) OR push_bit 32 (ucast (ucast (drop_bit 32 w) :: byte))
     OR push_bit 40 (ucast (ucast (drop_bit 40 w) :: byte)) OR push_bit 48 (ucast (ucast (drop_bit 48 w) :: byte))
     OR push_bit 56 (ucast (ucast (drop_bit 56 w) :: byte)) = w"
proof -
  have "w = take_bit (56 + 8) w" using take_bit_length_eq [of w] by simp
  also have "\<dots> = take_bit 56 w OR push_bit 56 (ucast (ucast (drop_bit 56 w) :: byte))"
    by (rule take_bit_byte_step)
  also have "take_bit 56 w = take_bit (48 + 8) w" by simp
  also have "\<dots> = take_bit 48 w OR push_bit 48 (ucast (ucast (drop_bit 48 w) :: byte))"
    by (rule take_bit_byte_step)
  also have "take_bit 48 w = take_bit (40 + 8) w" by simp
  also have "\<dots> = take_bit 40 w OR push_bit 40 (ucast (ucast (drop_bit 40 w) :: byte))"
    by (rule take_bit_byte_step)
  also have "take_bit 40 w = take_bit (32 + 8) w" by simp
  also have "\<dots> = take_bit 32 w OR push_bit 32 (ucast (ucast (drop_bit 32 w) :: byte))"
    by (rule take_bit_byte_step)
  also have "take_bit 32 w = take_bit (24 + 8) w" by simp
  also have "\<dots> = take_bit 24 w OR push_bit 24 (ucast (ucast (drop_bit 24 w) :: byte))"
    by (rule take_bit_byte_step)
  also have "take_bit 24 w = take_bit (16 + 8) w" by simp
  also have "\<dots> = take_bit 16 w OR push_bit 16 (ucast (ucast (drop_bit 16 w) :: byte))"
    by (rule take_bit_byte_step)
  also have "take_bit 16 w = take_bit (8 + 8) w" by simp
  also have "\<dots> = take_bit 8 w OR push_bit 8 (ucast (ucast (drop_bit 8 w) :: byte))"
    by (rule take_bit_byte_step)
  also have "take_bit 8 w = ucast (ucast w :: byte)"
    by (rule bit_word_eqI) (auto simp add: bit_simps)
  finally show ?thesis by (simp add: ac_simps)
qed

lemma st_at:
  "st m a v a = ucast v" "st m a v (a + 1) = ucast (drop_bit 8 v)"
  "st m a v (a + 2) = ucast (drop_bit 16 v)" "st m a v (a + 3) = ucast (drop_bit 24 v)"
  "st m a v (a + 4) = ucast (drop_bit 32 v)" "st m a v (a + 5) = ucast (drop_bit 40 v)"
  "st m a v (a + 6) = ucast (drop_bit 48 v)" "st m a v (a + 7) = ucast (drop_bit 56 v)"
  unfolding st_def by simp_all

lemma ld_st_same: "ld (st m a v) a = v"
  unfolding ld_def st_at by (rule byte_decomp)

lemma unat_plus_small:
  fixes a :: "64 word"
  assumes "unat a + unat k < 2 ^ 64"
  shows "unat (a + k) = unat a + unat k"
  using assms unat_add_lem [of a k] by simp

lemma st_outside: 
  assumes "unat x < unat a \<or> unat a + 8 \<le> unat x" "unat a + 8 \<le> 2 ^ 64"
  shows "st m a v x = m x"
proof -
  have u: "unat (a + 1) = unat a + 1" "unat (a + 2) = unat a + 2" "unat (a + 3) = unat a + 3"
    "unat (a + 4) = unat a + 4" "unat (a + 5) = unat a + 5" "unat (a + 6) = unat a + 6"
    "unat (a + 7) = unat a + 7"
    using assms(2) by (simp_all add: unat_plus_small)
  have "x \<noteq> a" "x \<noteq> a + 1" "x \<noteq> a + 2" "x \<noteq> a + 3" "x \<noteq> a + 4" "x \<noteq> a + 5" "x \<noteq> a + 6" "x \<noteq> a + 7"
    using assms(1) u by auto
  then show ?thesis unfolding st_def by simp
qed

lemma ld_st_other:
  assumes "unat a + 8 \<le> unat b \<or> unat b + 8 \<le> unat a" "unat a + 8 \<le> 2 ^ 64" "unat b + 8 \<le> 2 ^ 64"
  shows "ld (st m a v) b = ld m b"
proof -
  have u: "unat (b + 1) = unat b + 1" "unat (b + 2) = unat b + 2" "unat (b + 3) = unat b + 3"
    "unat (b + 4) = unat b + 4" "unat (b + 5) = unat b + 5" "unat (b + 6) = unat b + 6"
    "unat (b + 7) = unat b + 7"
    using assms(3) by (simp_all add: unat_plus_small)
  have *: "st m a v x = m x" if "unat b \<le> unat x" "unat x < unat b + 8" for x
    using assms(1,2) that by (intro st_outside) auto
  have "st m a v b = m b" "st m a v (b + 1) = m (b + 1)" "st m a v (b + 2) = m (b + 2)"
    "st m a v (b + 3) = m (b + 3)" "st m a v (b + 4) = m (b + 4)" "st m a v (b + 5) = m (b + 5)"
    "st m a v (b + 6) = m (b + 6)" "st m a v (b + 7) = m (b + 7)"
    by (rule *; simp add: u)+
  then show ?thesis unfolding ld_def by simp
qed

lemma st_apply:
  assumes "unat a + 8 \<le> 2 ^ 64"
  shows "st m a v x = (if unat a \<le> unat x \<and> unat x < unat a + 8
                       then ucast (drop_bit (8 * (unat x - unat a)) v) else m x)"
proof (cases "unat a \<le> unat x \<and> unat x < unat a + 8")
  case False
  then have "unat x < unat a \<or> unat a + 8 \<le> unat x" by auto
  then have "st m a v x = m x" using assms by (rule st_outside)
  then show ?thesis by (subst if_not_P [OF False])
next
  case True
  define k where "k = unat x - unat a"
  have k: "k < 8" "unat x = unat a + k" using True by (auto simp: k_def)
  have "x = a + of_nat k"
  proof -
    have "unat (a + of_nat k) = unat a + k"
      using k assms by (simp add: unat_plus_small unat_of_nat)
    then show ?thesis using k by (simp add: word_unat_eq_iff)
  qed
  moreover have "k = 0 \<or> k = 1 \<or> k = 2 \<or> k = 3 \<or> k = 4 \<or> k = 5 \<or> k = 6 \<or> k = 7"
    using k(1) by arith
  ultimately show ?thesis using True k(2)
    by (elim disjE) (simp_all add: st_at)
qed

section \<open>Evaluating calls on concrete heaps\<close>

lemma ld_zero: "ld zero_bytes a = 0"
  by (simp add: ld_def zero_bytes_def)

lemmas eval_defs = mm_malloc_def request_block_size_def first_call_def no_fit_def take_fit_def
  mem_sbrk_def mem_heap_lo_def mem_heap_hi_def mem_heapsize_def load64_def store64_def in_heap_def
  bnd_def Let_def ALIGN_def PTR_SIZE_def SIZE_T_SIZE_def moved_pointer_def BLOCK_HEADER_def
  BLOCK_END_def BLOCK_PAYLOAD_def BLOCK_FORWARD_def BLOCK_BACKWARD_def read_local_def
  terminated_def best_s_init_def mk_heap_def writes_def ld_zero ld_st_same ld_st_other
  mm_free_def append_block_def insert_between_def coalesce_after_def coalesce_before_def
  mm_realloc_def grow_split_def grow_absorb_def realloc_fallback_def

lemma lost_s1:
  "mm_malloc Trap 112 (mk_heap 1048576 0 (writes zero_bytes []))
     = Inr ((65552, mk_heap 1048576 128 (writes zero_bytes [(65536, 0), (65544, 121)])))"
  by (simp add: eval_defs)

lemma lost_s2:
  "mm_free 65552 (mk_heap 1048576 128 (writes zero_bytes [(65536, 0), (65544, 121)]))
     = Inr (mk_heap 1048576 128 (writes zero_bytes [(65536, 0), (65544, 121), (65544, 120), (65536, 65552), (65560, 0), (65552, 0)]))"
  apply (simp add: eval_defs)
  apply (subst free_loop.simps)
  apply (simp add: eval_defs)
  done

lemma lost_s3:
  "mm_malloc Trap 16 (mk_heap 1048576 128 (writes zero_bytes [(65536, 0), (65544, 121), (65544, 120), (65536, 65552), (65560, 0), (65552, 0)]))
     = Inr ((65648, mk_heap 1048576 128 (writes zero_bytes [(65536, 0), (65544, 121), (65544, 120), (65536, 65552), (65560, 0), (65552, 0), (65544, 96), (65640, 25)])))"
  apply (simp add: eval_defs)
  apply (subst scan_loop.simps)
  apply (simp add: eval_defs)
  done

lemma lost_s4:
  "mm_malloc Trap 16 (mk_heap 1048576 128 (writes zero_bytes [(65536, 0), (65544, 121), (65544, 120), (65536, 65552), (65560, 0), (65552, 0), (65544, 96), (65640, 25)]))
     = Inr ((65624, mk_heap 1048576 128 (writes zero_bytes [(65536, 0), (65544, 121), (65544, 120), (65536, 65552), (65560, 0), (65552, 0), (65544, 96), (65640, 25), (65544, 72), (65616, 25)])))"
  apply (simp add: eval_defs)
  apply (subst scan_loop.simps)
  apply (simp add: eval_defs)
  done

lemma lost_s5:
  "mm_malloc Trap 16 (mk_heap 1048576 128 (writes zero_bytes [(65536, 0), (65544, 121), (65544, 120), (65536, 65552), (65560, 0), (65552, 0), (65544, 96), (65640, 25), (65544, 72), (65616, 25)]))
     = Inr ((65600, mk_heap 1048576 128 (writes zero_bytes [(65536, 0), (65544, 121), (65544, 120), (65536, 65552), (65560, 0), (65552, 0), (65544, 96), (65640, 25), (65544, 72), (65616, 25), (65544, 48), (65592, 25)])))"
  apply (simp add: eval_defs)
  apply (subst scan_loop.simps)
  apply (simp add: eval_defs)
  done

lemma lost_s6:
  "mm_malloc Trap 40 (mk_heap 1048576 128 (writes zero_bytes [(65536, 0), (65544, 121), (65544, 120), (65536, 65552), (65560, 0), (65552, 0), (65544, 96), (65640, 25), (65544, 72), (65616, 25), (65544, 48), (65592, 25)]))
     = Inr ((65552, mk_heap 1048576 128 (writes zero_bytes [(65536, 0), (65544, 121), (65544, 120), (65536, 65552), (65560, 0), (65552, 0), (65544, 96), (65640, 25), (65544, 72), (65616, 25), (65544, 48), (65592, 25), (65536, 0), (65544, 49)])))"
  apply (simp add: eval_defs)
  apply (subst scan_loop.simps)
  apply (simp add: eval_defs)
  done

lemma lost_s7:
  "mm_free 65600 (mk_heap 1048576 128 (writes zero_bytes [(65536, 0), (65544, 121), (65544, 120), (65536, 65552), (65560, 0), (65552, 0), (65544, 96), (65640, 25), (65544, 72), (65616, 25), (65544, 48), (65592, 25), (65536, 0), (65544, 49)]))
     = Inr (mk_heap 1048576 128 (writes zero_bytes [(65536, 0), (65544, 121), (65544, 120), (65536, 65552), (65560, 0), (65552, 0), (65544, 96), (65640, 25), (65544, 72), (65616, 25), (65544, 48), (65592, 25), (65536, 0), (65544, 49), (65592, 24), (65536, 65600), (65608, 0), (65600, 0)]))"
  apply (simp add: eval_defs)
  apply (subst free_loop.simps)
  apply (simp add: eval_defs)
  done

lemma lost_s8:
  "mm_free 65648 (mk_heap 1048576 128 (writes zero_bytes [(65536, 0), (65544, 121), (65544, 120), (65536, 65552), (65560, 0), (65552, 0), (65544, 96), (65640, 25), (65544, 72), (65616, 25), (65544, 48), (65592, 25), (65536, 0), (65544, 49), (65592, 24), (65536, 65600), (65608, 0), (65600, 0)]))
     = Inr (mk_heap 1048576 128 (writes zero_bytes [(65536, 0), (65544, 121), (65544, 120), (65536, 65552), (65560, 0), (65552, 0), (65544, 96), (65640, 25), (65544, 72), (65616, 25), (65544, 48), (65592, 25), (65536, 0), (65544, 49), (65592, 24), (65536, 65600), (65608, 0), (65600, 0), (65640, 24), (65600, 65648), (65656, 65608), (65648, 0)]))"
  apply (simp add: eval_defs)
  apply (subst free_loop.simps)
  apply (simp add: eval_defs)
  done

lemma lost_s9:
  "mm_realloc Trap 65552 56 (mk_heap 1048576 128 (writes zero_bytes [(65536, 0), (65544, 121), (65544, 120), (65536, 65552), (65560, 0), (65552, 0), (65544, 96), (65640, 25), (65544, 72), (65616, 25), (65544, 48), (65592, 25), (65536, 0), (65544, 49), (65592, 24), (65536, 65600), (65608, 0), (65600, 0), (65640, 24), (65600, 65648), (65656, 65608), (65648, 0)]))
     = Inr ((65552, mk_heap 1048576 128 (writes zero_bytes [(65536, 0), (65544, 121), (65544, 120), (65536, 65552), (65560, 0), (65552, 0), (65544, 96), (65640, 25), (65544, 72), (65616, 25), (65544, 48), (65592, 25), (65536, 0), (65544, 49), (65592, 24), (65536, 65600), (65608, 0), (65600, 0), (65640, 24), (65600, 65648), (65656, 65608), (65648, 0), (65544, 73), (65656, 0), (65536, 0)])))"
  by (simp add: eval_defs)

lemma lost_s10:
  "mm_free 65624 (mk_heap 1048576 128 (writes zero_bytes [(65536, 0), (65544, 121), (65544, 120), (65536, 65552), (65560, 0), (65552, 0), (65544, 96), (65640, 25), (65544, 72), (65616, 25), (65544, 48), (65592, 25), (65536, 0), (65544, 49), (65592, 24), (65536, 65600), (65608, 0), (65600, 0), (65640, 24), (65600, 65648), (65656, 65608), (65648, 0), (65544, 73), (65656, 0), (65536, 0)]))
     = Inr (mk_heap 1048576 128 (writes zero_bytes [(65536, 0), (65544, 121), (65544, 120), (65536, 65552), (65560, 0), (65552, 0), (65544, 96), (65640, 25), (65544, 72), (65616, 25), (65544, 48), (65592, 25), (65536, 0), (65544, 49), (65592, 24), (65536, 65600), (65608, 0), (65600, 0), (65640, 24), (65600, 65648), (65656, 65608), (65648, 0), (65544, 73), (65656, 0), (65536, 0), (65616, 24), (65536, 65624), (65632, 0), (65624, 0)]))"
  apply (simp add: eval_defs)
  apply (subst free_loop.simps)
  apply (simp add: eval_defs)
  done

lemma refused_s1:
  "mm_malloc Trap 112 (mk_heap 128 0 (writes zero_bytes []))
     = Inr ((65552, mk_heap 128 128 (writes zero_bytes [(65536, 0), (65544, 121)])))"
  by (simp add: eval_defs)

lemma refused_s2:
  "mm_free 65552 (mk_heap 128 128 (writes zero_bytes [(65536, 0), (65544, 121)]))
     = Inr (mk_heap 128 128 (writes zero_bytes [(65536, 0), (65544, 121), (65544, 120), (65536, 65552), (65560, 0), (65552, 0)]))"
  apply (simp add: eval_defs)
  apply (subst free_loop.simps)
  apply (simp add: eval_defs)
  done

lemma refused_s3:
  "mm_malloc Trap 200 (mk_heap 128 128 (writes zero_bytes [(65536, 0), (65544, 121), (65544, 120), (65536, 65552), (65560, 0), (65552, 0)]))
     = Inr ((65552, mk_heap 128 128 (writes zero_bytes [(65536, 0), (65544, 121), (65544, 120), (65536, 65552), (65560, 0), (65552, 0), (65536, 0), (65544, 209)])))"
  apply (simp add: eval_defs)
  apply (subst scan_loop.simps)
  apply (simp add: eval_defs)
  done

lemma hi_plus_one: "mem_heap_hi h + 1 = mem_start_brk h + mem_brk h"
  by (simp add: mem_heap_hi_def)

lemma end_not_in_heap: "\<not> in_heap h (mem_start_brk h + mem_brk h) 8"
proof (cases "unat (mem_start_brk h) + unat (mem_brk h) < 2 ^ 64")
  case True
  then have "unat (mem_start_brk h + mem_brk h) = unat (mem_start_brk h) + unat (mem_brk h)"
    by (rule unat_plus_small)
  then show ?thesis by (simp add: in_heap_def)
next
  case False
  have "unat (mem_brk h) < 2 ^ 64" using unsigned_less [of "mem_brk h"] by simp
  moreover have "unat (mem_start_brk h) < 2 ^ 64" using unsigned_less [of "mem_start_brk h"] by simp
  moreover have "unat (mem_start_brk h + mem_brk h) = (unat (mem_start_brk h) + unat (mem_brk h)) mod 2 ^ 64"
    by (simp add: unat_word_ariths)
  ultimately have "unat (mem_start_brk h + mem_brk h) = unat (mem_start_brk h) + unat (mem_brk h) - 2 ^ 64"
    using False by (simp add: mod_if)
  then have "unat (mem_start_brk h + mem_brk h) < unat (mem_start_brk h)"
    using \<open>unat (mem_brk h) < 2 ^ 64\<close> False by linarith
  then show ?thesis by (simp add: in_heap_def)
qed

lemma empty_heap_writes: "empty_heap = mk_heap 1048576 0 (writes zero_bytes [])"
  by (simp add: empty_heap_def writes_def)

lemma lost_list_run_result: "lost_list_run empty_heap = Inr lost_list_final"
  unfolding lost_list_run_def empty_heap_writes lost_list_final_def
  by (simp add: bnd_def lost_s1 lost_s2 lost_s3 lost_s4 lost_s5 lost_s6 lost_s7 lost_s8 lost_s9 lost_s10)

lemma refused_run_result:
  "refused_run (mk_heap 128 0 zero_bytes) = Inr (refused_before, 65552, refused_after)"
proof -
  have e: "mk_heap 128 0 zero_bytes = mk_heap 128 0 (writes zero_bytes [])"
    by (simp add: writes_def)
  show ?thesis
    unfolding refused_run_def e refused_before_def refused_after_def
    by (simp add: bnd_def refused_s1 refused_s2 refused_s3)
qed

lemma split_s1:
  assumes "4136 \<le> unat mx"
  shows "mm_malloc junk 4096 (mk_heap mx 0 (writes m []))
     = Inr (65552, mk_heap mx 4112 (writes m [(65536, 0), (65544, 4105)]))"
  using assms by (simp add: eval_defs)

lemma split_s2:
  assumes "4136 \<le> unat mx" "g \<noteq> 4120"
  shows "mm_malloc (Garbage g) 16 (mk_heap mx 4112 (writes m [(65536, 0), (65544, 4105)]))
     = Inr (69656, mk_heap mx 4136 (writes m [(65536, 0), (65544, 4105), (69648, 25)]))"
  using assms by (simp add: eval_defs)

lemma split_s3:
  "mm_free 65552 (mk_heap mx 4136 (writes m [(65536, 0), (65544, 4105), (69648, 25)]))
     = Inr (mk_heap mx 4136 (writes m [(65536, 0), (65544, 4105), (69648, 25),
              (65544, 4104), (65536, 65552), (65560, 0), (65552, 0)]))"
  apply (simp add: eval_defs)
  apply (subst free_loop.simps)
  apply (simp add: eval_defs)
  done

lemma split_s4:
  "mm_malloc junk 64 (mk_heap mx 4136 (writes m [(65536, 0), (65544, 4105), (69648, 25),
              (65544, 4104), (65536, 65552), (65560, 0), (65552, 0)]))
     = Inr (69584, split_final mx m)"
  apply (simp add: eval_defs split_final_def)
  apply (subst scan_loop.simps)
  apply (simp add: eval_defs)
  done

lemma split_on_reuse_result:
  assumes "4136 \<le> unat mx" "g \<noteq> 4120"
  shows "split_on_reuse (Garbage g) (mk_heap mx 0 m) = Inr (65552, 69584, split_final mx m)"
proof -
  have e: "mk_heap mx 0 m = mk_heap mx 0 (writes m [])"
    by (simp add: writes_def)
  show ?thesis
    unfolding split_on_reuse_def e
    using assms by (simp add: bnd_def split_s1 split_s2 split_s3 split_s4)
qed

lemma huge_s1:
  "mm_malloc Trap 112 (mk_heap 8589934592 0 (writes zero_bytes []))
     = Inr ((65552, mk_heap 8589934592 128 (writes zero_bytes [(65536, 0), (65544, 121)])))"
  by (simp add: eval_defs)

lemma huge_s2:
  "mm_free 65552 (mk_heap 8589934592 128 (writes zero_bytes [(65536, 0), (65544, 121)]))
     = Inr (mk_heap 8589934592 128 (writes zero_bytes [(65536, 0), (65544, 121), (65544, 120), (65536, 65552), (65560, 0), (65552, 0)]))"
  apply (simp add: eval_defs)
  apply (subst free_loop.simps)
  apply (simp add: eval_defs)
  done

lemma huge_s3:
  "mm_malloc Trap 16 (mk_heap 8589934592 128 (writes zero_bytes [(65536, 0), (65544, 121), (65544, 120), (65536, 65552), (65560, 0), (65552, 0)]))
     = Inr ((65648, mk_heap 8589934592 128 (writes zero_bytes [(65536, 0), (65544, 121), (65544, 120), (65536, 65552), (65560, 0), (65552, 0), (65544, 96), (65640, 25)])))"
  apply (simp add: eval_defs)
  apply (subst scan_loop.simps)
  apply (simp add: eval_defs)
  done

lemma huge_s4:
  "mm_malloc Trap 4294967288 (mk_heap 8589934592 128 (writes zero_bytes [(65536, 0), (65544, 121), (65544, 120), (65536, 65552), (65560, 0), (65552, 0), (65544, 96), (65640, 25)]))
     = Inr ((65672, mk_heap 8589934592 4294967424 (writes zero_bytes [(65536, 0), (65544, 121), (65544, 120), (65536, 65552), (65560, 0), (65552, 0), (65544, 96), (65640, 25), (65664, 4294967297)])))"
  apply (simp add: eval_defs)
  apply (subst scan_loop.simps)
  apply (simp add: eval_defs)
  done

lemma huge_s5:
  "mm_malloc Trap 200 (mk_heap 8589934592 4294967424 (writes zero_bytes [(65536, 0), (65544, 121), (65544, 120), (65536, 65552), (65560, 0), (65552, 0), (65544, 96), (65640, 25), (65664, 4294967297)]))
     = Inr ((4295032968, mk_heap 8589934592 4294967632 (writes zero_bytes [(65536, 0), (65544, 121), (65544, 120), (65536, 65552), (65560, 0), (65552, 0), (65544, 96), (65640, 25), (65664, 4294967297), (4295032960, 209)])))"
  apply (simp add: eval_defs)
  apply (subst scan_loop.simps)
  apply (simp add: eval_defs)
  done

lemma huge_s6:
  "mm_free 65672 (mk_heap 8589934592 4294967632 (writes zero_bytes [(65536, 0), (65544, 121), (65544, 120), (65536, 65552), (65560, 0), (65552, 0), (65544, 96), (65640, 25), (65664, 4294967297), (4295032960, 209)]))
     = Inr (mk_heap 8589934592 4294967632 (writes zero_bytes [(65536, 0), (65544, 121), (65544, 120), (65536, 65552), (65560, 0), (65552, 0), (65544, 96), (65640, 25), (65664, 4294967297), (4295032960, 209), (65664, 4294967296), (65552, 65672), (65680, 65560), (65672, 0)]))"
  apply (simp add: eval_defs)
  apply (subst free_loop.simps)
  apply (simp add: eval_defs)
  done

lemma huge_s7:
  "mm_malloc Trap 200 (mk_heap 8589934592 4294967632 (writes zero_bytes [(65536, 0), (65544, 121), (65544, 120), (65536, 65552), (65560, 0), (65552, 0), (65544, 96), (65640, 25), (65664, 4294967297), (4295032960, 209), (65664, 4294967296), (65552, 65672), (65680, 65560), (65672, 0)]))
     = Inr ((4295033176, mk_heap 8589934592 4294967840 (writes zero_bytes [(65536, 0), (65544, 121), (65544, 120), (65536, 65552), (65560, 0), (65552, 0), (65544, 96), (65640, 25), (65664, 4294967297), (4295032960, 209), (65664, 4294967296), (65552, 65672), (65680, 65560), (65672, 0), (4295033168, 209)])))"
  apply (simp add: eval_defs)
  apply (subst scan_loop.simps)
  apply (simp add: eval_defs)
  apply (subst scan_loop.simps)
  apply (simp add: eval_defs)
  done

lemma huge_block_run_result:
  "huge_block_run (mk_heap 8589934592 0 zero_bytes) = Inr (huge_before, 4295033176, huge_after)"
proof -
  have e: "mk_heap 8589934592 0 zero_bytes = mk_heap 8589934592 0 (writes zero_bytes [])"
    by (simp add: writes_def)
  show ?thesis
    unfolding huge_block_run_def e huge_before_def huge_after_def
    by (simp add: bnd_def huge_s1 huge_s2 huge_s3 huge_s4 huge_s5 huge_s6 huge_s7)
qed

lemma unat_plus_of_nat:
  fixes a :: "64 word"
  assumes "unat a + k < 2 ^ 64"
  shows "unat (a + of_nat k) = unat a + k"
proof -
  have "unat (of_nat k :: 64 word) = k" using assms by (simp add: unat_of_nat)
  then show ?thesis using assms unat_plus_small [of a "of_nat k"] by simp
qed

lemma copy_bytes_apply:
  assumes "unat dst \<le> unat src" "unat src + k \<le> 2 ^ 64"
  shows "copy_bytes m dst src k x =
           (if unat dst \<le> unat x \<and> unat x < unat dst + k then m (src + (x - dst)) else m x)"
  using assms
proof (induction k arbitrary: x)
  case 0
  then show ?case by auto
next
  case (Suc k)
  have b: "unat src + k < 2 ^ 64" "unat dst + k < 2 ^ 64" using Suc.prems by auto
  have ud: "unat (dst + of_nat k) = unat dst + k" using b by (simp add: unat_plus_of_nat)
  have us: "unat (src + of_nat k) = unat src + k" using b by (simp add: unat_plus_of_nat)
  have IH: "copy_bytes m dst src k y =
           (if unat dst \<le> unat y \<and> unat y < unat dst + k then m (src + (y - dst)) else m y)" for y
    using Suc.IH [of y] Suc.prems by simp
  have src_k: "copy_bytes m dst src k (src + of_nat k) = m (src + of_nat k)"
    using Suc.prems(1) by (simp add: IH us)
  show ?case
  proof (cases "x = dst + of_nat k")
    case True
    then have "unat x = unat dst + k" using ud by simp
    moreover have "x - dst = of_nat k" using True by simp
    ultimately show ?thesis using True src_k by (simp add: Let_def)
  next
    case False
    then have "unat x \<noteq> unat dst + k" using ud by (metis word_unat_eq_iff)
    then show ?thesis using False by (auto simp add: Let_def IH)
  qed
qed

lemma ld_cong:
  assumes "\<And>i. i < 8 \<Longrightarrow> m' (a + of_nat i) = m (a + of_nat i)"
  shows "ld m' a = ld m a"
proof -
  have "m' (a + of_nat 0) = m (a + of_nat 0)" "m' (a + of_nat 1) = m (a + of_nat 1)"
    "m' (a + of_nat 2) = m (a + of_nat 2)" "m' (a + of_nat 3) = m (a + of_nat 3)"
    "m' (a + of_nat 4) = m (a + of_nat 4)" "m' (a + of_nat 5) = m (a + of_nat 5)"
    "m' (a + of_nat 6) = m (a + of_nat 6)" "m' (a + of_nat 7) = m (a + of_nat 7)"
    by (rule assms; simp)+
  then show ?thesis by (simp add: ld_def)
qed

lemma ld_copy_bytes_outside:
  assumes "unat dst \<le> unat src" "unat src + k \<le> 2 ^ 64" "unat a + 8 \<le> 2 ^ 64"
    and "unat a + 8 \<le> unat dst \<or> unat dst + k \<le> unat a"
  shows "ld (copy_bytes m dst src k) a = ld m a"
proof (rule ld_cong)
  fix i :: nat assume i: "i < 8"
  have "unat (a + of_nat i) = unat a + i" using i assms(3) by (simp add: unat_plus_of_nat)
  then show "copy_bytes m dst src k (a + of_nat i) = m (a + of_nat i)"
    using assms i by (auto simp add: copy_bytes_apply)
qed

lemma ld_copy_bytes_inside:
  assumes "unat dst \<le> unat src" "unat src + k \<le> 2 ^ 64"
    and "unat dst \<le> unat a" "unat a + 8 \<le> unat dst + k"
  shows "ld (copy_bytes m dst src k) a = ld m (a + (src - dst))"
proof -
  have *: "copy_bytes m dst src k (a + of_nat i) = m (a + (src - dst) + of_nat i)" if "i < 8" for i
  proof -
    have "unat (a + of_nat i) = unat a + i" using that assms by (simp add: unat_plus_of_nat)
    then show ?thesis using assms that by (simp add: copy_bytes_apply algebra_simps)
  qed
  have "copy_bytes m dst src k (a + of_nat 0) = m (a + (src - dst) + of_nat 0)"
    "copy_bytes m dst src k (a + of_nat 1) = m (a + (src - dst) + of_nat 1)"
    "copy_bytes m dst src k (a + of_nat 2) = m (a + (src - dst) + of_nat 2)"
    "copy_bytes m dst src k (a + of_nat 3) = m (a + (src - dst) + of_nat 3)"
    "copy_bytes m dst src k (a + of_nat 4) = m (a + (src - dst) + of_nat 4)"
    "copy_bytes m dst src k (a + of_nat 5) = m (a + (src - dst) + of_nat 5)"
    "copy_bytes m dst src k (a + of_nat 6) = m (a + (src - dst) + of_nat 6)"
    "copy_bytes m dst src k (a + of_nat 7) = m (a + (src - dst) + of_nat 7)"
    by (rule *; simp)+
  then show ?thesis by (simp add: ld_def)
qed


lemmas eval_copy = memcpy_def ld_copy_bytes_inside ld_copy_bytes_outside

lemma big_s1:
  "mm_malloc Trap 64 (mk_heap 8589934592 0 (writes zero_bytes [])) = Inr (65552, mk_heap 8589934592 80 (writes zero_bytes [(65536, 0), (65544, 73)]))"
  by (simp add: eval_defs)

lemma big_s2:
  "mm_free 65552 (mk_heap 8589934592 80 (writes zero_bytes [(65536, 0), (65544, 73)])) = Inr (mk_heap 8589934592 80 (writes zero_bytes [(65536, 0), (65544, 73), (65544, 72), (65536, 65552), (65560, 0), (65552, 0)]))"
  apply (simp add: eval_defs)
  apply (subst free_loop.simps)
  apply (simp add: eval_defs)
  done

lemma big_s3:
  "mm_malloc Trap 40 (mk_heap 8589934592 80 (writes zero_bytes [(65536, 0), (65544, 73), (65544, 72), (65536, 65552), (65560, 0), (65552, 0)])) = Inr (65576, mk_heap 8589934592 80 (writes zero_bytes [(65536, 0), (65544, 73), (65544, 72), (65536, 65552), (65560, 0), (65552, 0), (65544, 24), (65568, 49)]))"
  apply (simp add: eval_defs)
  apply (subst scan_loop.simps)
  apply (simp add: eval_defs)
  done

lemma big_s4:
  "mm_malloc Trap 4294967400 (mk_heap 8589934592 80 (writes zero_bytes [(65536, 0), (65544, 73), (65544, 72), (65536, 65552), (65560, 0), (65552, 0), (65544, 24), (65568, 49)])) = Inr (65624, mk_heap 8589934592 4294967488 (writes zero_bytes [(65536, 0), (65544, 73), (65544, 72), (65536, 65552), (65560, 0), (65552, 0), (65544, 24), (65568, 49), (65616, 4294967409)]))"
  apply (simp add: eval_defs)
  apply (subst scan_loop.simps)
  apply (simp add: eval_defs)
  done

lemma big_s5:
  "store64 (mk_heap 8589934592 4294967488 (writes zero_bytes [(65536, 0), (65544, 73), (65544, 72), (65536, 65552), (65560, 0), (65552, 0), (65544, 24), (65568, 49), (65616, 4294967409)])) 65600 12345 = Inr big_before"
  by (simp add: eval_defs big_before_def)

lemma big_s6_malloc:
  "mm_malloc Trap 4294967301 big_before = Inr (65552, mk_heap 8589934592 4294967488 (writes zero_bytes [(65536, 0), (65544, 73), (65544, 72), (65536, 65552), (65560, 0), (65552, 0), (65544, 24), (65568, 49), (65616, 4294967409), (65600, 12345), (65536, 0), (65544, 25)]))"
  apply (simp add: eval_defs big_before_def)
  apply (subst scan_loop.simps)
  apply (simp add: eval_defs)
  done

lemma big_s6_memcpy:
  "memcpy 65552 65576 4294967301 (mk_heap 8589934592 4294967488 (writes zero_bytes [(65536, 0), (65544, 73), (65544, 72), (65536, 65552), (65560, 0), (65552, 0), (65544, 24), (65568, 49), (65616, 4294967409), (65600, 12345), (65536, 0), (65544, 25)]))
     = Inr (mk_heap 8589934592 4294967488 (copy_bytes (writes zero_bytes [(65536, 0), (65544, 73), (65544, 72), (65536, 65552), (65560, 0), (65552, 0), (65544, 24), (65568, 49), (65616, 4294967409), (65600, 12345), (65536, 0), (65544, 25)]) 65552 65576 4294967301))"
  by (simp add: memcpy_def in_heap_def mk_heap_def)

lemma big_s6_free:
  "mm_free 65576 (mk_heap 8589934592 4294967488 (copy_bytes (writes zero_bytes [(65536, 0), (65544, 73), (65544, 72), (65536, 65552), (65560, 0), (65552, 0), (65544, 24), (65568, 49), (65616, 4294967409), (65600, 12345), (65536, 0), (65544, 25)]) 65552 65576 4294967301))
     = Inr big_after"
  apply (simp add: eval_defs eval_copy big_after_def)
  apply (subst free_loop.simps)
  apply (simp add: eval_defs eval_copy)
  done

lemma big_s6:
  "mm_realloc Trap 65576 4294967301 big_before = Inr (65552, big_after)"
proof -
  have hdr: "load64 big_before (moved_pointer 65576 0 BLOCK_PAYLOAD BLOCK_HEADER) = Inr 49"
    "load64 big_before 65616 = Inr 4294967409"
    "mem_heap_hi big_before + 1 = 4295033024"
    "moved_pointer 65576 48 BLOCK_PAYLOAD BLOCK_END = 65616"
    "ALIGN (4294967301 + SIZE_T_SIZE) = 4294967312"
    by (simp_all add: big_before_def eval_defs)
  have cs: "load64 (mk_heap 8589934592 4294967488 (writes zero_bytes [(65536, 0), (65544, 73), (65544, 72), (65536, 65552), (65560, 0), (65552, 0), (65544, 24), (65568, 49), (65616, 4294967409), (65600, 12345), (65536, 0), (65544, 25)])) 65576 = Inr 0"
    by (simp add: eval_defs)
  have fb: "realloc_fallback Trap 65576 4294967301 big_before = Inr (65552, big_after)"
    unfolding realloc_fallback_def Let_def
    by (simp add: big_s6_malloc bnd_def big_s6_memcpy big_s6_free cs)
  show ?thesis
    unfolding mm_realloc_def Let_def
    by (simp add: hdr bnd_def fb)
qed

lemma big_realloc_run_result:
  "big_realloc_run (mk_heap 8589934592 0 zero_bytes) = Inr (big_before, 65576, 65552, big_after)"
proof -
  have e: "mk_heap 8589934592 0 zero_bytes = mk_heap 8589934592 0 (writes zero_bytes [])"
    by (simp add: writes_def)
  show ?thesis
    unfolding big_realloc_run_def e
    by (simp add: bnd_def big_s1 big_s2 big_s3 big_s4 big_s5 big_s6)
qed

section \<open>Free-list lemmas\<close>

lemma SIZE_T_SIZE_8: "SIZE_T_SIZE = 8"
  by (simp add: SIZE_T_SIZE_def ALIGN_def)

lemma mp_simps:
  "moved_pointer p b BLOCK_FORWARD BLOCK_HEADER = p - 8"
  "moved_pointer p b BLOCK_FORWARD BLOCK_END = p - 8 + b"
  "moved_pointer p b BLOCK_FORWARD BLOCK_BACKWARD = p + 8"
  "moved_pointer p b BLOCK_BACKWARD BLOCK_FORWARD = p - 8"
  "moved_pointer p b BLOCK_HEADER BLOCK_PAYLOAD = p + 8"
  "moved_pointer p b BLOCK_PAYLOAD BLOCK_HEADER = p - 8"
  by (simp_all add: moved_pointer_def SIZE_T_SIZE_8 PTR_SIZE_def BLOCK_HEADER_def BLOCK_END_def
      BLOCK_PAYLOAD_def BLOCK_FORWARD_def BLOCK_BACKWARD_def)

lemma fl_ok_Cons:
  "fl_ok h slot pbw pb ((n, s) # xs) \<longleftrightarrow>
     load64 h slot = Inr n \<and> pb \<le> unat n \<and> load64 h (n - 8) = Inr s \<and> load64 h (n + 8) = Inr pbw \<and>
     s AND 1 = 0 \<and> 24 \<le> unat s \<and> unat n + unat s \<le> unat (mem_start_brk h) + unat (mem_brk h) + 8 \<and>
     fl_ok h n (n + 8) (unat n + unat s) xs"
  by (simp only: fl_ok.simps mp_simps)

lemma fl_ok_lower:
  assumes "fl_ok h slot pbw pb xs" "x \<in> set xs"
  shows "pb \<le> unat (fst x)"
  using assms
proof (induction xs arbitrary: slot pbw pb)
  case Nil
  then show ?case by simp
next
  case (Cons y ys)
  obtain n s where y: "y = (n, s)" by (cases y)
  from Cons.prems(1) have a: "pb \<le> unat n" "fl_ok h n (n + 8) (unat n + unat s) ys"
    unfolding y fl_ok_Cons by blast+
  show ?case
  proof (cases "x = y")
    case True
    then show ?thesis using a y by simp
  next
    case False
    then have "x \<in> set ys" using Cons.prems(2) by simp
    with a(2) have "unat n + unat s \<le> unat (fst x)" by (rule Cons.IH)
    then show ?thesis using a(1) by linarith
  qed
qed

lemma scan_loop_nofit:
  assumes "fl_ok h slot pbw pb ((n, s) # xs)" "\<forall>x \<in> set ((n, s) # xs). snd x < newsize"
  shows "scan_loop h newsize n bp bs
           = Some (Inr (fst (last ((n, s) # xs)), snd (last ((n, s) # xs)), bp, bs))"
  using assms
proof (induction xs arbitrary: n s slot pbw pb)
  case Nil
  from Nil.prems(1) have "load64 h (n - 8) = Inr s" "load64 h n = Inr 0"
    unfolding fl_ok_Cons by simp_all
  moreover have "s < newsize" using Nil.prems(2) by simp
  ultimately show ?case
    by (subst scan_loop.simps) (auto simp add: mp_simps)
next
  case (Cons x xs)
  obtain n' s' where x: "x = (n', s')" by (cases x)
  from Cons.prems(1) have f: "load64 h (n - 8) = Inr s"
    and rest: "fl_ok h n (n + 8) (unat n + unat s) ((n', s') # xs)"
    unfolding x fl_ok_Cons [of h slot] by blast+
  from rest have g: "load64 h n = Inr n'" "unat n + unat s \<le> unat n'"
    unfolding fl_ok_Cons by blast+
  have nz: "n' \<noteq> 0"
  proof
    assume "n' = 0"
    then have "unat n' = 0" by simp
    moreover have "24 \<le> unat s" using Cons.prems(1) unfolding x fl_ok_Cons [of h slot] by blast
    ultimately show False using g(2) by linarith
  qed
  have lt: "s < newsize" "\<forall>x \<in> set ((n', s') # xs). snd x < newsize"
    using Cons.prems(2) x by simp_all
  have "scan_loop h newsize n' bp bs
           = Some (Inr (fst (last ((n', s') # xs)), snd (last ((n', s') # xs)), bp, bs))"
    using rest lt(2) by (rule Cons.IH)
  then show ?case using f g(1) nz x lt(1)
    by (subst scan_loop.simps) (auto simp add: mp_simps)
qed


lemma load64_Inr_iff: "load64 h a = Inr v \<longleftrightarrow> in_heap h a 8 \<and> v = ld (bytes h) a"
  by (auto simp add: load64_def)

lemma unat_minus8:
  fixes n :: "64 word"
  assumes "8 \<le> unat n"
  shows "unat (n - 8) = unat n - 8"
proof -
  have "(8 :: 64 word) \<le> n" using assms by (simp add: word_le_nat_alt)
  then show ?thesis by (simp add: unat_sub)
qed

lemma unat_plus8:
  fixes n :: "64 word"
  assumes "unat n + 8 < 2 ^ 64"
  shows "unat (n + 8) = unat n + 8"
  using assms unat_plus_small [of n 8] by simp

lemma fl_ok_drop_last:
  assumes fl: "fl_ok h slot pbw pb (xs @ [(n, s)])"
    and sp: "unat slot + 16 \<le> pb"
    and A: "A = (if xs = [] then slot else fst (last xs))"
    and nw: "unat (mem_start_brk h) + unat (mem_brk h) < 2 ^ 64"
    and st: "mem_start_brk h' = mem_start_brk h" and brk: "unat (mem_brk h) \<le> unat (mem_brk h')"
    and zero: "load64 h' A = Inr 0"
    and same: "\<And>a. in_heap h a 8 \<Longrightarrow> unat a + 8 \<le> unat A \<or> unat A + 8 \<le> unat a
                 \<Longrightarrow> unat a + 16 \<le> unat n \<Longrightarrow> load64 h' a = load64 h a"
  shows "fl_ok h' slot pbw pb xs"
  using fl sp A
proof (induction xs arbitrary: slot pbw pb)
  case Nil
  then show ?case using zero by simp
next
  case (Cons x xs)
  obtain n1 s1 where x: "x = (n1, s1)" by (cases x)
  from Cons.prems(1) have f: "load64 h slot = Inr n1" "pb \<le> unat n1" "load64 h (n1 - 8) = Inr s1"
    "load64 h (n1 + 8) = Inr pbw" "s1 AND 1 = 0" "24 \<le> unat s1"
    "unat n1 + unat s1 \<le> unat (mem_start_brk h) + unat (mem_brk h) + 8"
    and rest: "fl_ok h n1 (n1 + 8) (unat n1 + unat s1) (xs @ [(n, s)])"
    unfolding x append_Cons fl_ok_Cons by blast+
  have n_lb: "unat n1 + unat s1 \<le> unat n"
    using fl_ok_lower [OF rest, of "(n, s)"] by simp
  have A_lb: "xs \<noteq> [] \<Longrightarrow> unat n1 + unat s1 \<le> unat A"
    using fl_ok_lower [OF rest, of "last xs"] Cons.prems(3) by simp
  have A_eq: "xs = [] \<Longrightarrow> A = n1" using Cons.prems(3) x by simp
  have u8: "unat (n1 - 8) = unat n1 - 8" "8 \<le> unat n1"
    using f(2) Cons.prems(2) by (simp_all add: unat_minus8)
  have p8: "unat (n1 + 8) = unat n1 + 8"
    using f(6,7) nw by (intro unat_plus8) linarith
  have ih: "in_heap h slot 8" "in_heap h (n1 - 8) 8" "in_heap h (n1 + 8) 8"
    using f(1,3,4) by (simp_all add: load64_Inr_iff)
  have 1: "load64 h' slot = load64 h slot"
  proof (rule same [OF ih(1)])
    show "unat slot + 8 \<le> unat A \<or> unat A + 8 \<le> unat slot"
      using A_lb A_eq f(2,6) Cons.prems(2) by (cases "xs = []") auto
    show "unat slot + 16 \<le> unat n" using n_lb f(2) Cons.prems(2) by linarith
  qed
  have 2: "load64 h' (n1 - 8) = load64 h (n1 - 8)"
  proof (rule same [OF ih(2)])
    show "unat (n1 - 8) + 8 \<le> unat A \<or> unat A + 8 \<le> unat (n1 - 8)"
      using A_lb A_eq u8 by (cases "xs = []") auto
    show "unat (n1 - 8) + 16 \<le> unat n" using n_lb f(6) u8 by linarith
  qed
  have 3: "load64 h' (n1 + 8) = load64 h (n1 + 8)"
  proof (rule same [OF ih(3)])
    show "unat (n1 + 8) + 8 \<le> unat A \<or> unat A + 8 \<le> unat (n1 + 8)"
      using A_lb A_eq p8 f(6) by (cases "xs = []") auto
    show "unat (n1 + 8) + 16 \<le> unat n" using n_lb f(6) p8 by linarith
  qed
  have A': "A = (if xs = [] then n1 else fst (last xs))"
    using Cons.prems(3) x by simp
  have "fl_ok h' n1 (n1 + 8) (unat n1 + unat s1) xs"
    using rest _ A' by (rule Cons.IH) (use f(6) in linarith)
  moreover have "unat n1 + unat s1 \<le> unat (mem_start_brk h') + unat (mem_brk h') + 8"
    using f(7) st brk by simp
  ultimately show ?case
    unfolding x fl_ok_Cons using f 1 2 3 by simp
qed


lemma fl_ok_last:
  assumes "fl_ok h slot pbw pb (ys @ [(n, s)])"
  shows "load64 h (if ys = [] then slot else fst (last ys)) = Inr n
    \<and> load64 h (n - 8) = Inr s
    \<and> load64 h (n + 8) = Inr (if ys = [] then pbw else fst (last ys) + 8)
    \<and> load64 h n = Inr 0 \<and> 24 \<le> unat s
    \<and> unat n + unat s \<le> unat (mem_start_brk h) + unat (mem_brk h) + 8
    \<and> (ys \<noteq> [] \<longrightarrow> unat (fst (last ys)) + 24 \<le> unat n)"
  using assms
proof (induction ys arbitrary: slot pbw pb)
  case Nil
  then show ?case unfolding append_Nil fl_ok_Cons by simp
next
  case (Cons y ys)
  obtain n1 s1 where y: "y = (n1, s1)" by (cases y)
  from Cons.prems have f: "24 \<le> unat s1"
    and rest: "fl_ok h n1 (n1 + 8) (unat n1 + unat s1) (ys @ [(n, s)])"
    unfolding y append_Cons fl_ok_Cons by blast+
  note ih = Cons.IH [OF rest]
  have "unat n1 + unat s1 \<le> unat n" using fl_ok_lower [OF rest, of "(n, s)"] by simp
  then have "ys = [] \<Longrightarrow> unat n1 + 24 \<le> unat n" using f by linarith
  then show ?case using ih y by (cases "ys = []") simp_all
qed

lemma in_heap_grow:
  assumes "in_heap h a k" "mem_start_brk h' = mem_start_brk h" "unat (mem_brk h) \<le> unat (mem_brk h')"
  shows "in_heap h' a k"
  using assms by (simp add: in_heap_def)

lemma no_fit_tail_extension:
  assumes nw: "unat (mem_start_brk h) + unat (mem_max h) < 2 ^ 64"
    and hdr: "in_heap h (n - 8) 8" and bw: "load64 h (n + 8) = Inr pbw"
    and A: "A = (if pbw \<noteq> 0 then pbw - 8 else mem_start_brk h)" and Ah: "in_heap h A 8"
    and tail: "n - 8 + s = mem_start_brk h + mem_brk h"
    and grant: "unat (mem_brk h) + unat (newsize - s) \<le> unat (mem_max h)"
  shows "no_fit junk newsize n (Some s) h
           = Inr (n, h\<lparr>mem_brk := mem_brk h + (newsize - s),
                       bytes := st (st (bytes h) A 0) (n - 8) (newsize + 1)\<rparr>)"
proof -
  define h1 where "h1 = h\<lparr>mem_brk := mem_brk h + (newsize - s)\<rparr>"
  have sb: "snd (mem_sbrk (newsize - s) h) = h1"
    using grant by (simp add: mem_sbrk_def h1_def)
  have ub: "unat (mem_brk h + (newsize - s)) = unat (mem_brk h) + unat (newsize - s)"
    using grant nw by (intro unat_plus_small) linarith
  have g: "mem_start_brk h1 = mem_start_brk h" "unat (mem_brk h) \<le> unat (mem_brk h1)"
    "bytes h1 = bytes h"
    using ub by (simp_all add: h1_def)
  have l1: "load64 h1 (n + 8) = Inr pbw"
  proof -
    have "in_heap h (n + 8) 8" "pbw = ld (bytes h) (n + 8)"
      using bw by (simp_all add: load64_Inr_iff)
    then show ?thesis
      using in_heap_grow [OF _ g(1,2), of "n + 8" 8] by (simp add: load64_def g(3))
  qed
  have s1: "store64 h1 A 0 = Inr (h1\<lparr>bytes := st (bytes h) A 0\<rparr>)"
    using in_heap_grow [OF Ah g(1,2)] by (simp add: store64_def g(3))
  have hdr2: "in_heap (h1\<lparr>bytes := st (bytes h) A 0\<rparr>) (n - 8) 8"
    using in_heap_grow [OF hdr g(1,2)] by (simp add: in_heap_def)
  have ne: "n - 8 \<noteq> - 1"
  proof
    assume "n - 8 = - 1"
    then have "unat (n - 8) = 2 ^ 64 - 1"
      by (simp only: unsigned_minus_1_eq_mask mask_eq_exp_minus_1) simp
    moreover have "unat (n - 8) + 8 \<le> unat (mem_start_brk h) + unat (mem_brk h)"
      using hdr by (simp add: in_heap_def)
    moreover have "unat (mem_brk h) \<le> unat (mem_max h)" using grant by linarith
    ultimately show False using nw by simp
  qed
  have cond: "n - 8 + s = mem_heap_hi h + 1"
    using tail by (simp add: mem_heap_hi_def)
  have slot: "(if pbw \<noteq> 0 then store64 h1 (moved_pointer pbw 0 BLOCK_BACKWARD BLOCK_FORWARD) 0
                else store64 h1 (mem_heap_lo h1) 0) = store64 h1 A 0"
    using A by (simp add: mp_simps mem_heap_lo_def g(1))
  show ?thesis
    unfolding no_fit_def
    apply (simp only: read_local_def option.case bnd_def sum.case Let_def mp_simps)
    apply (simp only: cond if_True sb l1 sum.case slot [unfolded mp_simps] s1)
    apply (simp add: ne store64_def hdr2 [unfolded h1_def] h1_def)
    done
qed


lemma pair_s1:
  "mm_malloc Trap 136 (mk_heap 1048576 0 (writes zero_bytes []))
     = Inr ((65552, mk_heap 1048576 152 (writes zero_bytes [(65536, 0), (65544, 145)])))"
  by (simp add: eval_defs)

lemma pair_s2:
  "mm_free 65552 (mk_heap 1048576 152 (writes zero_bytes [(65536, 0), (65544, 145)]))
     = Inr (mk_heap 1048576 152 (writes zero_bytes [(65536, 0), (65544, 145), (65544, 144), (65536, 65552), (65560, 0), (65552, 0)]))"
  apply (simp add: eval_defs)
  apply (subst free_loop.simps)
  apply (simp add: eval_defs)
  done

lemma pair_s3:
  "mm_malloc Trap 16 (mk_heap 1048576 152 (writes zero_bytes [(65536, 0), (65544, 145), (65544, 144), (65536, 65552), (65560, 0), (65552, 0)]))
     = Inr ((65672, mk_heap 1048576 152 (writes zero_bytes [(65536, 0), (65544, 145), (65544, 144), (65536, 65552), (65560, 0), (65552, 0), (65544, 120), (65664, 25)])))"
  apply (simp add: eval_defs)
  apply (subst scan_loop.simps)
  apply (simp add: eval_defs)
  done

lemma pair_s4:
  "mm_malloc Trap 16 (mk_heap 1048576 152 (writes zero_bytes [(65536, 0), (65544, 145), (65544, 144), (65536, 65552), (65560, 0), (65552, 0), (65544, 120), (65664, 25)]))
     = Inr ((65648, mk_heap 1048576 152 (writes zero_bytes [(65536, 0), (65544, 145), (65544, 144), (65536, 65552), (65560, 0), (65552, 0), (65544, 120), (65664, 25), (65544, 96), (65640, 25)])))"
  apply (simp add: eval_defs)
  apply (subst scan_loop.simps)
  apply (simp add: eval_defs)
  done

lemma pair_s5:
  "mm_malloc Trap 16 (mk_heap 1048576 152 (writes zero_bytes [(65536, 0), (65544, 145), (65544, 144), (65536, 65552), (65560, 0), (65552, 0), (65544, 120), (65664, 25), (65544, 96), (65640, 25)]))
     = Inr ((65624, mk_heap 1048576 152 (writes zero_bytes [(65536, 0), (65544, 145), (65544, 144), (65536, 65552), (65560, 0), (65552, 0), (65544, 120), (65664, 25), (65544, 96), (65640, 25), (65544, 72), (65616, 25)])))"
  apply (simp add: eval_defs)
  apply (subst scan_loop.simps)
  apply (simp add: eval_defs)
  done

lemma pair_s6:
  "mm_malloc Trap 16 (mk_heap 1048576 152 (writes zero_bytes [(65536, 0), (65544, 145), (65544, 144), (65536, 65552), (65560, 0), (65552, 0), (65544, 120), (65664, 25), (65544, 96), (65640, 25), (65544, 72), (65616, 25)]))
     = Inr ((65600, mk_heap 1048576 152 (writes zero_bytes [(65536, 0), (65544, 145), (65544, 144), (65536, 65552), (65560, 0), (65552, 0), (65544, 120), (65664, 25), (65544, 96), (65640, 25), (65544, 72), (65616, 25), (65544, 48), (65592, 25)])))"
  apply (simp add: eval_defs)
  apply (subst scan_loop.simps)
  apply (simp add: eval_defs)
  done

lemma pair_s7:
  "mm_malloc Trap 40 (mk_heap 1048576 152 (writes zero_bytes [(65536, 0), (65544, 145), (65544, 144), (65536, 65552), (65560, 0), (65552, 0), (65544, 120), (65664, 25), (65544, 96), (65640, 25), (65544, 72), (65616, 25), (65544, 48), (65592, 25)]))
     = Inr ((65552, mk_heap 1048576 152 (writes zero_bytes [(65536, 0), (65544, 145), (65544, 144), (65536, 65552), (65560, 0), (65552, 0), (65544, 120), (65664, 25), (65544, 96), (65640, 25), (65544, 72), (65616, 25), (65544, 48), (65592, 25), (65536, 0), (65544, 49)])))"
  apply (simp add: eval_defs)
  apply (subst scan_loop.simps)
  apply (simp add: eval_defs)
  done

lemma pair_s8:
  "mm_free 65600 (mk_heap 1048576 152 (writes zero_bytes [(65536, 0), (65544, 145), (65544, 144), (65536, 65552), (65560, 0), (65552, 0), (65544, 120), (65664, 25), (65544, 96), (65640, 25), (65544, 72), (65616, 25), (65544, 48), (65592, 25), (65536, 0), (65544, 49)]))
     = Inr (mk_heap 1048576 152 (writes zero_bytes [(65536, 0), (65544, 145), (65544, 144), (65536, 65552), (65560, 0), (65552, 0), (65544, 120), (65664, 25), (65544, 96), (65640, 25), (65544, 72), (65616, 25), (65544, 48), (65592, 25), (65536, 0), (65544, 49), (65592, 24), (65536, 65600), (65608, 0), (65600, 0)]))"
  apply (simp add: eval_defs)
  apply (subst free_loop.simps)
  apply (simp add: eval_defs)
  done

lemma pair_s9:
  "mm_free 65648 (mk_heap 1048576 152 (writes zero_bytes [(65536, 0), (65544, 145), (65544, 144), (65536, 65552), (65560, 0), (65552, 0), (65544, 120), (65664, 25), (65544, 96), (65640, 25), (65544, 72), (65616, 25), (65544, 48), (65592, 25), (65536, 0), (65544, 49), (65592, 24), (65536, 65600), (65608, 0), (65600, 0)]))
     = Inr (mk_heap 1048576 152 (writes zero_bytes [(65536, 0), (65544, 145), (65544, 144), (65536, 65552), (65560, 0), (65552, 0), (65544, 120), (65664, 25), (65544, 96), (65640, 25), (65544, 72), (65616, 25), (65544, 48), (65592, 25), (65536, 0), (65544, 49), (65592, 24), (65536, 65600), (65608, 0), (65600, 0), (65640, 24), (65600, 65648), (65656, 65608), (65648, 0)]))"
  apply (simp add: eval_defs)
  apply (subst free_loop.simps)
  apply (simp add: eval_defs)
  done

lemma pair_s10:
  "mm_realloc Trap 65552 56 (mk_heap 1048576 152 (writes zero_bytes [(65536, 0), (65544, 145), (65544, 144), (65536, 65552), (65560, 0), (65552, 0), (65544, 120), (65664, 25), (65544, 96), (65640, 25), (65544, 72), (65616, 25), (65544, 48), (65592, 25), (65536, 0), (65544, 49), (65592, 24), (65536, 65600), (65608, 0), (65600, 0), (65640, 24), (65600, 65648), (65656, 65608), (65648, 0)]))
     = Inr ((65552, mk_heap 1048576 152 (writes zero_bytes [(65536, 0), (65544, 145), (65544, 144), (65536, 65552), (65560, 0), (65552, 0), (65544, 120), (65664, 25), (65544, 96), (65640, 25), (65544, 72), (65616, 25), (65544, 48), (65592, 25), (65536, 0), (65544, 49), (65592, 24), (65536, 65600), (65608, 0), (65600, 0), (65640, 24), (65600, 65648), (65656, 65608), (65648, 0), (65544, 73), (65656, 0), (65536, 0)])))"
  by (simp add: eval_defs)

lemma pair_s11:
  "mm_free 65624 (mk_heap 1048576 152 (writes zero_bytes [(65536, 0), (65544, 145), (65544, 144), (65536, 65552), (65560, 0), (65552, 0), (65544, 120), (65664, 25), (65544, 96), (65640, 25), (65544, 72), (65616, 25), (65544, 48), (65592, 25), (65536, 0), (65544, 49), (65592, 24), (65536, 65600), (65608, 0), (65600, 0), (65640, 24), (65600, 65648), (65656, 65608), (65648, 0), (65544, 73), (65656, 0), (65536, 0)]))
     = Inr (mk_heap 1048576 152 (writes zero_bytes [(65536, 0), (65544, 145), (65544, 144), (65536, 65552), (65560, 0), (65552, 0), (65544, 120), (65664, 25), (65544, 96), (65640, 25), (65544, 72), (65616, 25), (65544, 48), (65592, 25), (65536, 0), (65544, 49), (65592, 24), (65536, 65600), (65608, 0), (65600, 0), (65640, 24), (65600, 65648), (65656, 65608), (65648, 0), (65544, 73), (65656, 0), (65536, 0), (65616, 24), (65536, 65624), (65632, 0), (65624, 0)]))"
  apply (simp add: eval_defs)
  apply (subst free_loop.simps)
  apply (simp add: eval_defs)
  done

lemma pair_s12:
  "mm_free 65672 (mk_heap 1048576 152 (writes zero_bytes [(65536, 0), (65544, 145), (65544, 144), (65536, 65552), (65560, 0), (65552, 0), (65544, 120), (65664, 25), (65544, 96), (65640, 25), (65544, 72), (65616, 25), (65544, 48), (65592, 25), (65536, 0), (65544, 49), (65592, 24), (65536, 65600), (65608, 0), (65600, 0), (65640, 24), (65600, 65648), (65656, 65608), (65648, 0), (65544, 73), (65656, 0), (65536, 0), (65616, 24), (65536, 65624), (65632, 0), (65624, 0)]))
     = Inr (mk_heap 1048576 152 (writes zero_bytes [(65536, 0), (65544, 145), (65544, 144), (65536, 65552), (65560, 0), (65552, 0), (65544, 120), (65664, 25), (65544, 96), (65640, 25), (65544, 72), (65616, 25), (65544, 48), (65592, 25), (65536, 0), (65544, 49), (65592, 24), (65536, 65600), (65608, 0), (65600, 0), (65640, 24), (65600, 65648), (65656, 65608), (65648, 0), (65544, 73), (65656, 0), (65536, 0), (65616, 24), (65536, 65624), (65632, 0), (65624, 0), (65664, 24), (65624, 65672), (65680, 65632), (65672, 0)]))"
  apply (simp add: eval_defs)
  apply (subst free_loop.simps)
  apply (simp add: eval_defs)
  done

lemma lost_pair_run_result: "lost_pair_run empty_heap = Inr lost_pair_final"
  unfolding lost_pair_run_def empty_heap_writes lost_pair_final_def
  by (simp add: bnd_def pair_s1 pair_s2 pair_s3 pair_s4 pair_s5 pair_s6 pair_s7 pair_s8 pair_s9
      pair_s10 pair_s11 pair_s12)

lemma lost_pair_print: "print_heap_blocks lost_pair_final = Inr 0"
  apply (simp add: print_heap_blocks_def lost_pair_final_def eval_defs)
  apply (subst blocks_loop.simps)
  apply (simp add: eval_defs)
  apply (subst blocks_loop.simps)
  apply (simp add: eval_defs)
  apply (subst blocks_loop.simps)
  apply (simp add: eval_defs)
  done

lemma lost_pair_debug: "free_list_debug lost_pair_final = Inr (Some 1)"
  apply (simp add: free_list_debug_def lost_pair_final_def eval_defs)
  apply (subst debug_loop.simps)
  apply (simp add: eval_defs)
  apply (subst debug_loop.simps)
  apply (simp add: eval_defs)
  apply (subst debug_loop.simps)
  apply (simp add: eval_defs)
  done

text \<open>
  Below the initial value of \<^verbatim>\<open>best_s\<close> the scan is a best fit: on a well-formed free list
  whose blocks are all smaller than \<open>best_s_init\<close>, \<^verbatim>\<open>mm_malloc\<close> takes the block that
  \<open>best_fit\<close> names.
\<close>

lemma best_fit_fits: "best_fit newsize xs = Some (m, t) \<Longrightarrow> newsize \<le> t \<and> (m, t) \<in> set xs"
proof (induction xs arbitrary: m t)
  case Nil
  then show ?case by simp
next
  case (Cons x xs)
  obtain n s where x: "x = (n, s)" by (cases x)
  show ?case
  proof (cases "best_fit newsize xs")
    case None
    then show ?thesis using Cons.prems x by (auto split: if_splits)
  next
    case (Some a)
    obtain m' t' where a: "a = (m', t')" by (cases a)
    have "newsize \<le> t' \<and> (m', t') \<in> set xs" using Cons.IH Some a by simp
    then show ?thesis using Cons.prems x Some a by (auto split: if_splits)
  qed
qed

lemma scan_loop_acc:
  assumes "fl_ok h slot pbw pb ((n, s) # xs)"
    and "\<forall>x \<in> set ((n, s) # xs). snd x < B"
    and "newsize < bs" "bs \<le> B"
  shows "\<exists>cur sa. scan_loop h newsize n bp bs
           = Some (Inr (cur, sa, better (bp, bs) (best_fit newsize ((n, s) # xs))))"
  using assms
proof (induction xs arbitrary: n s slot pbw pb bp bs)
  case Nil
  from Nil.prems(1) have l: "load64 h (n - 8) = Inr s" "load64 h n = Inr 0"
    unfolding fl_ok_Cons by simp_all
  show ?case
    using l Nil.prems(3)
    by (subst scan_loop.simps) (auto simp add: mp_simps)
next
  case (Cons x xs)
  obtain n' s' where x: "x = (n', s')" by (cases x)
  from Cons.prems(1) have f: "load64 h (n - 8) = Inr s" "24 \<le> unat s"
    and rest: "fl_ok h n (n + 8) (unat n + unat s) ((n', s') # xs)"
    unfolding x fl_ok_Cons [of h slot] by blast+
  from rest have g: "load64 h n = Inr n'" "unat n + unat s \<le> unat n'"
    unfolding fl_ok_Cons by blast+
  have nz: "n' \<noteq> 0" using g(2) f(2) by auto
  have bound: "s < B" "\<forall>x \<in> set ((n', s') # xs). snd x < B"
    using Cons.prems(2) x by simp_all
  obtain r where r: "best_fit newsize ((n', s') # xs) = r" by blast
  have rfit: "newsize \<le> t" if "r = Some (m, t)" for m t
    using best_fit_fits [of newsize "(n', s') # xs" m t] r that by simp
  consider (cand) "newsize < s" "s < bs" | (exact) "s = newsize" | (skip) "s < newsize \<or> (newsize < s \<and> bs \<le> s)"
    by (metis linorder_less_linear not_le)
  then show ?case
  proof cases
    case cand
    have "\<exists>cur sa. scan_loop h newsize n' n s
           = Some (Inr (cur, sa, better (n, s) (best_fit newsize ((n', s') # xs))))"
      using rest bound(2) cand(1) by (rule Cons.IH) (use bound(1) in simp)
    then obtain cur sa where ih: "scan_loop h newsize n' n s = Some (Inr (cur, sa, better (n, s) r))"
      using r by auto
    have "better (bp, bs) (best_fit newsize ((n, s) # (n', s') # xs)) = better (n, s) r"
      using cand r rfit by (cases r) (auto simp add: not_le not_less)
    then show ?thesis
      unfolding x using f(1) g(1) nz cand ih
      by (subst scan_loop.simps) (auto simp add: mp_simps)
  next
    case exact
    have "better (bp, bs) (best_fit newsize ((n, s) # (n', s') # xs)) = (n, s)"
      using exact r rfit Cons.prems(3) by (cases r) (auto simp add: not_le not_less)
    then show ?thesis
      unfolding x using f(1) exact
      by (subst scan_loop.simps) (auto simp add: mp_simps)
  next
    case skip
    have "\<exists>cur sa. scan_loop h newsize n' bp bs
           = Some (Inr (cur, sa, better (bp, bs) (best_fit newsize ((n', s') # xs))))"
      using rest bound(2) Cons.prems(3,4) by (rule Cons.IH)
    then obtain cur sa where ih: "scan_loop h newsize n' bp bs = Some (Inr (cur, sa, better (bp, bs) r))"
      using r by auto
    have "better (bp, bs) (best_fit newsize ((n, s) # (n', s') # xs)) = better (bp, bs) r"
      using skip r rfit Cons.prems(3) by (cases r) (auto simp add: not_le not_less)
    then show ?thesis
      unfolding x using f(1) g(1) nz skip ih
      by (subst scan_loop.simps) (auto simp add: mp_simps)
  qed
qed


lemma malloc_takes_best_fit:
  assumes "free_list h xs" "mem_heapsize h \<noteq> 0"
    and "\<forall>x \<in> set xs. snd x < best_s_init"
    and "best_fit (request_block_size n0) xs = Some (m, t)"
  shows "mm_malloc junk n0 h = take_fit (request_block_size n0) m t h"
proof -
  obtain n s ys where xs: "xs = (n, s) # ys"
    using assms(4) by (cases xs) auto
  have fl: "fl_ok h (mem_heap_lo h) 0 (unat (mem_heap_lo h) + 16) ((n, s) # ys)"
    using assms(1) xs by (simp add: free_list_def)
  have fit: "request_block_size n0 \<le> t" "(m, t) \<in> set xs"
    using best_fit_fits [OF assms(4)] by simp_all
  have first: "load64 h (mem_heap_lo h) = Inr n" "16 \<le> unat n"
    using fl unfolding fl_ok_Cons by simp_all
  have nz: "n \<noteq> 0" using first(2) by auto
  have "unat (mem_heap_lo h) + 16 \<le> unat (fst (m, t))"
    using fl fit(2) unfolding xs by (rule fl_ok_lower)
  then have mz: "m \<noteq> 0" by auto
  have lt: "request_block_size n0 < best_s_init"
    using fit assms(3) by fastforce
  have "\<exists>cur sa. scan_loop h (request_block_size n0) n 0 best_s_init
           = Some (Inr (cur, sa, better (0, best_s_init) (best_fit (request_block_size n0) ((n, s) # ys))))"
    using fl assms(3) [unfolded xs] lt by (rule scan_loop_acc) simp
  moreover have "better (0, best_s_init) (best_fit (request_block_size n0) ((n, s) # ys)) = (m, t)"
    using assms(3,4) fit(2) unfolding xs [symmetric] by fastforce
  ultimately obtain cur sa where
    "scan_loop h (request_block_size n0) n 0 best_s_init = Some (Inr (cur, sa, m, t))"
    by auto
  then show ?thesis
    using assms(2) first(1) nz mz
    by (simp add: mm_malloc_def bnd_def terminated_def)
qed


lemma best_fit_None: "best_fit newsize xs = None \<longleftrightarrow> (\<forall>x \<in> set xs. snd x < newsize)"
proof (induction xs)
  case Nil
  then show ?case by simp
next
  case (Cons x xs)
  obtain n s where x: "x = (n, s)" by (cases x)
  show ?case using Cons.IH unfolding x
    by (cases "best_fit newsize xs") (auto simp add: not_le split: if_splits)
qed

lemma best_fit_minimal:
  assumes "best_fit newsize xs = Some (m, t)" "x \<in> set xs" "newsize \<le> snd x"
  shows "t \<le> snd x"
  using assms
proof (induction xs arbitrary: m t)
  case Nil
  then show ?case by simp
next
  case (Cons y ys)
  obtain n s where y: "y = (n, s)" by (cases y)
  show ?case
  proof (cases "best_fit newsize ys")
    case None
    then have "\<forall>x \<in> set ys. snd x < newsize" by (simp add: best_fit_None)
    then have "x = y" using Cons.prems(2,3) by auto
    then show ?thesis using Cons.prems(1,3) None y by (auto split: if_splits)
  next
    case (Some a)
    obtain m' t' where a: "a = (m', t')" by (cases a)
    have ih: "t' \<le> snd x" if "x \<in> set ys"
      using Cons.IH [of m' t'] Some a that Cons.prems(3) by simp
    show ?thesis
    proof (cases "x = y")
      case True
      then show ?thesis using Cons.prems(1,3) Some a y by (auto split: if_splits)
    next
      case False
      then have "t' \<le> snd x" using ih Cons.prems(2) by simp
      then show ?thesis using Cons.prems(1) Some a y by (auto split: if_splits)
    qed
  qed
qed


section \<open>Freeing a block\<close>

text \<open>
  \<^verbatim>\<open>mm_free\<close> on a well-formed free list. The stores of a call touch the freed block and
  its two neighbours on the list; the list before \<open>before\<close> and behind \<open>after\<close> is carried
  over by the frame lemmas \<open>fl_ok_cong\<close>, \<open>fl_ok_above\<close> and \<open>fl_ok_relink\<close>.
\<close>

lemma in_heap_bytes: "in_heap (h\<lparr>bytes := m\<rparr>) a k = in_heap h a k"
  by (simp add: in_heap_def)

lemma load64_bytes:
  "in_heap h a 8 \<Longrightarrow> load64 (h\<lparr>bytes := m\<rparr>) a = Inr (ld m a)"
  by (simp add: load64_def in_heap_def)

lemma store64_bytes:
  "in_heap h a 8 \<Longrightarrow> store64 (h\<lparr>bytes := m\<rparr>) a v = Inr (h\<lparr>bytes := st m a v\<rparr>)"
  by (simp add: store64_def in_heap_def)

lemma store64_plain:
  "in_heap h a 8 \<Longrightarrow> store64 h a v = Inr (h\<lparr>bytes := st (bytes h) a v\<rparr>)"
  by (simp add: store64_def)

lemma ld_st_heap:
  assumes "heap_ok h" "in_heap h x 8" "in_heap h a 8"
    and "unat x + 8 \<le> unat a \<or> unat a + 8 \<le> unat x"
  shows "ld (st m x v) a = ld m a"
proof -
  have "unat x + 8 \<le> 2 ^ 64" "unat a + 8 \<le> 2 ^ 64"
    using assms(1-3) by (simp_all add: heap_ok_def in_heap_def)
  then show ?thesis using assms(4) by (intro ld_st_other)
qed

lemma adj_iff:
  fixes x y sx :: "64 word"
  shows "(y - 8 = x - 8 + sx) = (x + sx = y)"
  by (auto simp add: algebra_simps)

lemma even_sum:
  fixes a b :: "64 word"
  assumes "a AND 1 = 0" "b AND 1 = 0"
  shows "(a + b) AND 1 = 0"
  using assms by (simp add: and_one_eq mod_2_eq_odd)

lemma clear_flag:
  fixes s :: "64 word"
  assumes "s AND 1 = 0"
  shows "(s + 1) AND NOT 1 = s"
proof -
  have 1: "s + 1 = s OR 1" using word_plus_and_or [of s 1] assms by simp
  have 2: "\<not> bit s 0" using assms by (simp add: and_one_eq mod_2_eq_odd bit_0)
  have "(s OR 1) AND NOT 1 = s"
  proof (rule bit_word_eqI)
    fix n assume "n < LENGTH(64)"
    then show "bit ((s OR 1) AND NOT 1) n = bit s n"
      using 2 by (cases "n = 0") (auto simp add: bit_simps bit_1_iff)
  qed
  then show ?thesis using 1 by simp
qed

lemma fl_ok_cong:
  assumes "fl_ok h slot pbw pb xs"
    and "mem_start_brk h' = mem_start_brk h" "mem_brk h' = mem_brk h"
    and "load64 h' slot = load64 h slot"
    and "\<And>n t. (n, t) \<in> set xs \<Longrightarrow> load64 h' (n - 8) = load64 h (n - 8)
           \<and> load64 h' n = load64 h n \<and> load64 h' (n + 8) = load64 h (n + 8)"
  shows "fl_ok h' slot pbw pb xs"
  using assms(1,4,5)
proof (induction xs arbitrary: slot pbw pb)
  case Nil
  then show ?case by simp
next
  case (Cons x xs)
  obtain n s where x: "x = (n, s)" by (cases x)
  have w: "load64 h' (n - 8) = load64 h (n - 8)" "load64 h' n = load64 h n"
    "load64 h' (n + 8) = load64 h (n + 8)"
    using Cons.prems(3) [of n s] x by simp_all
  from Cons.prems(1) have rest: "fl_ok h n (n + 8) (unat n + unat s) xs"
    unfolding x fl_ok_Cons by blast
  have "fl_ok h' n (n + 8) (unat n + unat s) xs"
    using rest w(2) by (rule Cons.IH) (use Cons.prems(3) in auto)
  then show ?case
    using Cons.prems(1) unfolding x fl_ok_Cons by (simp add: w Cons.prems(2) assms(2,3))
qed


lemma heap_end_small:
  assumes "heap_ok h"
  shows "unat (mem_start_brk h) + unat (mem_brk h) < 2 ^ 64"
  using assms by (simp add: heap_ok_def)

lemma fl_ok_slot:
  assumes "fl_ok h slot pbw pb xs"
  shows "in_heap h slot 8" "ld (bytes h) slot = (case xs of [] \<Rightarrow> 0 | x # _ \<Rightarrow> fst x)"
proof -
  show "in_heap h slot 8"
    using assms by (cases xs) (auto simp add: load64_Inr_iff)
  show "ld (bytes h) slot = (case xs of [] \<Rightarrow> 0 | x # _ \<Rightarrow> fst x)"
    using assms by (cases xs) (auto simp add: load64_Inr_iff)
qed

lemma fl_ok_facts:
  assumes ok: "heap_ok h" and fl: "fl_ok h slot pbw pb ((n, s) # xs)" and sp: "16 \<le> pb"
  shows "in_heap h slot 8" "ld (bytes h) slot = n"
    "in_heap h (n - 8) 8" "ld (bytes h) (n - 8) = s"
    "in_heap h n 8"
    "in_heap h (n + 8) 8" "ld (bytes h) (n + 8) = pbw"
    "unat (n - 8) = unat n - 8" "unat (n + 8) = unat n + 8"
    "pb \<le> unat n" "24 \<le> unat s" "s AND 1 = 0"
    "unat n + unat s \<le> unat (mem_start_brk h) + unat (mem_brk h) + 8"
    "8 \<le> unat n"
    "fl_ok h n (n + 8) (unat n + unat s) xs"
proof -
  from fl have f: "load64 h slot = Inr n" "pb \<le> unat n" "load64 h (n - 8) = Inr s"
    "load64 h (n + 8) = Inr pbw" "s AND 1 = 0" "24 \<le> unat s"
    "unat n + unat s \<le> unat (mem_start_brk h) + unat (mem_brk h) + 8"
    and rest: "fl_ok h n (n + 8) (unat n + unat s) xs"
    unfolding fl_ok_Cons by blast+
  show "in_heap h slot 8" "ld (bytes h) slot = n" "in_heap h (n - 8) 8" "ld (bytes h) (n - 8) = s"
    "in_heap h (n + 8) 8" "ld (bytes h) (n + 8) = pbw"
    using f(1,3,4) by (simp_all add: load64_Inr_iff)
  show "in_heap h n 8" using rest by (rule fl_ok_slot)
  show "unat (n - 8) = unat n - 8" using f(2) sp by (intro unat_minus8) linarith
  show "unat (n + 8) = unat n + 8"
    using f(6,7) heap_end_small [OF ok] by (intro unat_plus8) linarith
  show "pb \<le> unat n" "24 \<le> unat s" "s AND 1 = 0"
    "unat n + unat s \<le> unat (mem_start_brk h) + unat (mem_brk h) + 8"
    "fl_ok h n (n + 8) (unat n + unat s) xs"
    using f rest by simp_all
  show "8 \<le> unat n" using f(2) sp by linarith
qed

lemma fl_ok_ConsI:
  assumes "in_heap h slot 8" "ld m' slot = n" "pb \<le> unat n"
    and "in_heap h (n - 8) 8" "ld m' (n - 8) = s"
    and "in_heap h (n + 8) 8" "ld m' (n + 8) = pbw"
    and "s AND 1 = 0" "24 \<le> unat s"
    and "unat n + unat s \<le> unat (mem_start_brk h) + unat (mem_brk h) + 8"
    and "fl_ok (h\<lparr>bytes := m'\<rparr>) n (n + 8) (unat n + unat s) xs"
  shows "fl_ok (h\<lparr>bytes := m'\<rparr>) slot pbw pb ((n, s) # xs)"
  unfolding fl_ok_Cons using assms by (simp add: load64_Inr_iff in_heap_bytes)

lemma fl_ok_NilI:
  assumes "in_heap h slot 8" "ld m' slot = 0"
  shows "fl_ok (h\<lparr>bytes := m'\<rparr>) slot pbw pb []"
  using assms by (simp add: load64_Inr_iff in_heap_bytes)

lemma fl_ok_mem:
  assumes ok: "heap_ok h" and fl: "fl_ok h slot pbw pb xs" and sp: "16 \<le> pb" and x: "(n, s) \<in> set xs"
  shows "in_heap h (n - 8) 8 \<and> in_heap h n 8 \<and> in_heap h (n + 8) 8 \<and> pb \<le> unat n
    \<and> unat (n - 8) = unat n - 8 \<and> unat (n + 8) = unat n + 8"
  using fl sp x
proof (induction xs arbitrary: slot pbw pb)
  case Nil
  then show ?case by simp
next
  case (Cons y ys)
  obtain n1 s1 where y: "y = (n1, s1)" by (cases y)
  note f = fl_ok_facts [OF ok Cons.prems(1) [unfolded y] Cons.prems(2)]
  show ?case
  proof (cases "(n, s) = y")
    case True
    then show ?thesis using f y by simp
  next
    case False
    then have "(n, s) \<in> set ys" using Cons.prems(3) by simp
    moreover have "16 \<le> unat n1 + unat s1" using f(11) by linarith
    ultimately have "in_heap h (n - 8) 8 \<and> in_heap h n 8 \<and> in_heap h (n + 8) 8
      \<and> unat n1 + unat s1 \<le> unat n \<and> unat (n - 8) = unat n - 8 \<and> unat (n + 8) = unat n + 8"
      using f(15) by (intro Cons.IH)
    then show ?thesis using f(10) by simp
  qed
qed

lemma fl_ok_above:
  assumes ok: "heap_ok h" and fl: "fl_ok h slot pbw pb xs" and sp: "16 \<le> pb"
    and slot': "in_heap h slot' 8" "ld m' slot' = ld (bytes h) slot"
    and pb': "pb' \<le> pb"
    and frame: "\<And>a. in_heap h a 8 \<Longrightarrow> pb \<le> unat a + 8 \<Longrightarrow> ld m' a = ld (bytes h) a"
  shows "fl_ok (h\<lparr>bytes := m'\<rparr>) slot' pbw pb' xs"
proof (cases xs)
  case Nil
  then show ?thesis using fl slot' by (simp add: load64_Inr_iff in_heap_bytes)
next
  case (Cons x ys)
  obtain n s where x: "x = (n, s)" by (cases x)
  note f = fl_ok_facts [OF ok fl [unfolded Cons x] sp]
  have w: "ld m' (n - 8) = s" "ld m' n = ld (bytes h) n" "ld m' (n + 8) = pbw"
    using frame [OF f(3)] frame [OF f(5)] frame [OF f(6)] f by simp_all
  have "fl_ok (h\<lparr>bytes := m'\<rparr>) n (n + 8) (unat n + unat s) ys"
  proof (rule fl_ok_cong [OF f(15)])
    show "load64 (h\<lparr>bytes := m'\<rparr>) n = load64 h n"
      using f(5) w(2) by (simp add: load64_def in_heap_bytes)
    fix n' t' assume "(n', t') \<in> set ys"
    then have g: "in_heap h (n' - 8) 8 \<and> in_heap h n' 8 \<and> in_heap h (n' + 8) 8
      \<and> unat n + unat s \<le> unat n' \<and> unat (n' - 8) = unat n' - 8 \<and> unat (n' + 8) = unat n' + 8"
      using f(11) by (intro fl_ok_mem [OF ok f(15)]) simp_all
    then have "ld m' (n' - 8) = ld (bytes h) (n' - 8)" "ld m' n' = ld (bytes h) n'"
      "ld m' (n' + 8) = ld (bytes h) (n' + 8)"
      using f(10,11) by (auto intro!: frame)
    then show "load64 (h\<lparr>bytes := m'\<rparr>) (n' - 8) = load64 h (n' - 8)
           \<and> load64 (h\<lparr>bytes := m'\<rparr>) n' = load64 h n'
           \<and> load64 (h\<lparr>bytes := m'\<rparr>) (n' + 8) = load64 h (n' + 8)"
      by (simp add: load64_def in_heap_bytes)
  qed simp_all
  then show ?thesis
    unfolding Cons x fl_ok_Cons
    using f w slot' pb' by (simp add: load64_Inr_iff in_heap_bytes)
qed

lemma fl_ok_relink:
  assumes ok: "heap_ok h" and fl: "fl_ok h slot pbw pb ((n, s) # ys)" and sp: "16 \<le> pb"
    and slot': "in_heap h slot' 8" "ld m' slot' = n"
    and pb': "pb' \<le> unat n"
    and bw: "ld m' (n + 8) = pbw'"
    and frame: "\<And>a. in_heap h a 8 \<Longrightarrow> unat n \<le> unat a + 8
                  \<Longrightarrow> unat a \<le> unat n \<or> unat n + 16 \<le> unat a \<Longrightarrow> ld m' a = ld (bytes h) a"
  shows "fl_ok (h\<lparr>bytes := m'\<rparr>) slot' pbw' pb' ((n, s) # ys)"
proof -
  note f = fl_ok_facts [OF ok fl sp]
  have w: "ld m' (n - 8) = s" "ld m' n = ld (bytes h) n"
    using frame [OF f(3)] frame [OF f(5)] f by simp_all
  have "fl_ok (h\<lparr>bytes := m'\<rparr>) n (n + 8) (unat n + unat s) ys"
  proof (rule fl_ok_above [OF ok f(15) _ f(5) w(2)])
    show "16 \<le> unat n + unat s" using f(11) by linarith
    fix a assume "in_heap h a 8" "unat n + unat s \<le> unat a + 8"
    then show "ld m' a = ld (bytes h) a" using f(11) by (intro frame) linarith+
  qed simp
  then show ?thesis
    unfolding fl_ok_Cons
    using f w slot' pb' bw by (simp add: load64_Inr_iff in_heap_bytes)
qed


lemma unat_sum_sizes:
  fixes sx sy :: "64 word"
  assumes "unat sx + unat sy < 2 ^ 64"
  shows "unat (sx + sy) = unat sx + unat sy"
  using assms by (rule unat_plus_small)

lemma word_sum_eq_iff:
  fixes x sx y :: "64 word"
  assumes "unat x + unat sx < 2 ^ 64"
  shows "(x + sx = y) = (unat x + unat sx = unat y)"
  using unat_plus_small [OF assms] by (auto simp add: word_unat_eq_iff)

lemma coalesce_after_ok:
  assumes ok: "heap_ok h" and fl: "fl_ok h slot pbw pb ((x, sx) # (y, sy) # zs)"
    and sp: "unat slot + 16 \<le> pb"
  shows "\<exists>m'. coalesce_after x y h = Inr (h\<lparr>bytes := m'\<rparr>)
           \<and> fl_ok (h\<lparr>bytes := m'\<rparr>) slot pbw pb (coalesce_succ (x, sx) ((y, sy) # zs))
           \<and> (\<forall>a. in_heap h a 8 \<longrightarrow> unat a + 16 \<le> unat x \<longrightarrow> ld m' a = ld (bytes h) a)"
proof -
  have sp16: "16 \<le> pb" using sp by linarith
  note fx = fl_ok_facts [OF ok fl sp16]
  note ax = fx(1-14)
  have spx: "16 \<le> unat x + unat sx" using fx(11) by linarith
  note fy = fl_ok_facts [OF ok fx(15) spx]
  note ay = fy(1-14)
  have spy: "16 \<le> unat y + unat sy" using fy(11) by linarith
  note E = heap_end_small [OF ok]
  have hx: "load64 h (x - 8) = Inr sx" using fx(3,4) by (simp add: load64_Inr_iff)
  have adj: "(x + sx = y) = (unat x + unat sx = unat y)"
    using fy(10,11,13) E by (intro word_sum_eq_iff) linarith
  show ?thesis
  proof (cases "x + sx = y")
    case False
    have "coalesce_after x y h = Inr (h\<lparr>bytes := bytes h\<rparr>)"
      using False hx by (simp add: coalesce_after_def mp_simps bnd_def adj_iff)
    moreover have "fl_ok (h\<lparr>bytes := bytes h\<rparr>) slot pbw pb (coalesce_succ (x, sx) ((y, sy) # zs))"
      using False fl by simp
    ultimately show ?thesis by blast
  next
    case True
    then have ua: "unat x + unat sx = unat y" using adj by simp
    have us: "unat (sx + sy) = unat sx + unat sy"
      using ua fy(13) fx(10) sp16 E by (intro unat_sum_sizes) linarith
    have hy: "load64 h (y - 8) = Inr sy" using fy(3,4) by (simp add: load64_Inr_iff)
    define m1 where "m1 = st (bytes h) (x - 8) (sx + sy)"
    have ly: "ld m1 y = ld (bytes h) y"
      unfolding m1_def using ax ay by (intro ld_st_heap [OF ok]) simp_all
    show ?thesis
    proof (cases zs)
      case Nil
      have y0: "ld (bytes h) y = 0" using fl_ok_slot(2) [OF fy(15)] Nil by simp
      define m' where "m' = st m1 x 0"
      have run: "coalesce_after x y h = Inr (h\<lparr>bytes := m'\<rparr>)"
        using True hx hy fx(3,5) fy(5) ly y0
        by (simp add: coalesce_after_def mp_simps bnd_def adj_iff store64_plain store64_bytes
            load64_bytes ld_st_same m1_def [symmetric] m'_def)
      have others: "ld m' a = ld (bytes h) a" if "in_heap h a 8" "unat a + 16 \<le> unat x" for a
      proof -
        have "ld m' a = ld m1 a"
          unfolding m'_def using ax that by (intro ld_st_heap [OF ok]) simp_all
        also have "\<dots> = ld (bytes h) a"
          unfolding m1_def using ax that by (intro ld_st_heap [OF ok]) simp_all
        finally show ?thesis .
      qed
      have 1: "ld m' slot = x" using others [OF fx(1)] fx(2,10) sp by simp
      have 2: "ld m' (x - 8) = sx + sy"
      proof -
        have "ld m' (x - 8) = ld m1 (x - 8)"
          unfolding m'_def using ax by (intro ld_st_heap [OF ok]) simp_all
        then show ?thesis by (simp add: m1_def ld_st_same)
      qed
      have 3: "ld m' (x + 8) = pbw"
      proof -
        have "ld m' (x + 8) = ld m1 (x + 8)"
          unfolding m'_def using ax by (intro ld_st_heap [OF ok]) simp_all
        also have "\<dots> = ld (bytes h) (x + 8)"
          unfolding m1_def using ax by (intro ld_st_heap [OF ok]) simp_all
        finally show ?thesis using fx(7) by simp
      qed
      have 4: "ld m' x = 0" by (simp add: m'_def ld_st_same)
      have "fl_ok (h\<lparr>bytes := m'\<rparr>) slot pbw pb [(x, sx + sy)]"
      proof (rule fl_ok_ConsI)
        show "fl_ok (h\<lparr>bytes := m'\<rparr>) x (x + 8) (unat x + unat (sx + sy)) []"
          using ax(5) 4 by (rule fl_ok_NilI)
      qed (use ax ay 1 2 3 us ua in \<open>simp_all add: even_sum\<close>)
      then show ?thesis using run others True Nil by auto
    next
      case (Cons zz zs')
      obtain z sz where zz: "zz = (z, sz)" by (cases zz)
      note fz = fl_ok_facts [OF ok fy(15) [unfolded Cons zz] spy]
      note az = fz(1-14)
      define m2 where "m2 = st m1 x z"
      define m' where "m' = st m2 (z + 8) (x + 8)"
      have znz: "z \<noteq> 0" using fz(10) spy by auto
      have run: "coalesce_after x y h = Inr (h\<lparr>bytes := m'\<rparr>)"
        using True hx hy fx(3,5) fy(5) ly fz(2,6) znz
        by (simp add: coalesce_after_def mp_simps bnd_def adj_iff store64_plain store64_bytes
            load64_bytes ld_st_same m1_def [symmetric] m2_def [symmetric] m'_def)
      have below: "ld m' a = ld (bytes h) a" if "in_heap h a 8" "unat a + 16 \<le> unat x" for a
      proof -
        have "ld m' a = ld m2 a"
          unfolding m'_def using ax ay az that by (intro ld_st_heap [OF ok]) simp_all
        also have "\<dots> = ld m1 a"
          unfolding m2_def using ax that by (intro ld_st_heap [OF ok]) simp_all
        also have "\<dots> = ld (bytes h) a"
          unfolding m1_def using ax that by (intro ld_st_heap [OF ok]) simp_all
        finally show ?thesis .
      qed
      have above: "ld m' a = ld (bytes h) a"
        if "in_heap h a 8" "unat z \<le> unat a + 8" "unat a \<le> unat z \<or> unat z + 16 \<le> unat a" for a
      proof -
        have "ld m' a = ld m2 a"
          unfolding m'_def using az that by (intro ld_st_heap [OF ok]) auto
        also have "\<dots> = ld m1 a"
          unfolding m2_def using ax ay az that by (intro ld_st_heap [OF ok]) simp_all
        also have "\<dots> = ld (bytes h) a"
          unfolding m1_def using ax ay az that by (intro ld_st_heap [OF ok]) simp_all
        finally show ?thesis .
      qed
      have 1: "ld m' slot = x" using below [OF fx(1)] fx(2,10) sp by simp
      have 2: "ld m' (x - 8) = sx + sy"
      proof -
        have "ld m' (x - 8) = ld m2 (x - 8)"
          unfolding m'_def using ax ay az by (intro ld_st_heap [OF ok]) simp_all
        also have "\<dots> = ld m1 (x - 8)"
          unfolding m2_def using ax by (intro ld_st_heap [OF ok]) simp_all
        finally show ?thesis by (simp add: m1_def ld_st_same)
      qed
      have 3: "ld m' (x + 8) = pbw"
      proof -
        have "ld m' (x + 8) = ld m2 (x + 8)"
          unfolding m'_def using ax ay az by (intro ld_st_heap [OF ok]) simp_all
        also have "\<dots> = ld m1 (x + 8)"
          unfolding m2_def using ax by (intro ld_st_heap [OF ok]) simp_all
        also have "\<dots> = ld (bytes h) (x + 8)"
          unfolding m1_def using ax by (intro ld_st_heap [OF ok]) simp_all
        finally show ?thesis using fx(7) by simp
      qed
      have 4: "ld m' x = z"
      proof -
        have "ld m' x = ld m2 x"
          unfolding m'_def using ax ay az by (intro ld_st_heap [OF ok]) simp_all
        then show ?thesis by (simp add: m2_def ld_st_same)
      qed
      have 5: "ld m' (z + 8) = x + 8" by (simp add: m'_def ld_st_same)
      have rest: "fl_ok (h\<lparr>bytes := m'\<rparr>) x (x + 8) (unat x + unat (sx + sy)) ((z, sz) # zs')"
        using ok fy(15) [unfolded Cons zz] spy fx(5) 4 _ 5 above
        by (rule fl_ok_relink) (use us ua fz(10) in simp)
      have "fl_ok (h\<lparr>bytes := m'\<rparr>) slot pbw pb ((x, sx + sy) # (z, sz) # zs')"
      proof (rule fl_ok_ConsI)
        show "fl_ok (h\<lparr>bytes := m'\<rparr>) x (x + 8) (unat x + unat (sx + sy)) ((z, sz) # zs')"
          by (rule rest)
      qed (use ax ay 1 2 3 us ua in \<open>simp_all add: even_sum\<close>)
      then show ?thesis using run below True Cons zz by auto
    qed
  qed
qed


lemma heap_ok_bytes: "heap_ok (h\<lparr>bytes := m\<rparr>) = heap_ok h"
  by (simp add: heap_ok_def)

lemma block_facts:
  assumes ok: "heap_ok h" and lo: "unat (mem_start_brk h) + 16 \<le> unat p" and sz: "24 \<le> unat s"
    and hi: "unat p + unat s \<le> unat (mem_start_brk h) + unat (mem_brk h) + 8"
  shows "in_heap h (p - 8) 8" "in_heap h p 8" "in_heap h (p + 8) 8"
    "unat (p - 8) = unat p - 8" "unat (p + 8) = unat p + 8" "8 \<le> unat p"
proof -
  note E = heap_end_small [OF ok]
  show 1: "unat (p - 8) = unat p - 8" using lo by (intro unat_minus8) linarith
  show 2: "unat (p + 8) = unat p + 8" using sz hi E by (intro unat_plus8) linarith
  show "in_heap h (p - 8) 8" "in_heap h p 8" "in_heap h (p + 8) 8" "8 \<le> unat p"
    using lo sz hi 1 2 by (simp_all add: in_heap_def)
qed

lemma link_run:
  assumes "in_heap h slot 8" "in_heap h (a + 8) 8" "in_heap h p 8" "in_heap h (p + 8) 8"
  shows "bnd (store64 h slot p) (\<lambda>h1. bnd (store64 h1 (a + 8) (p + 8)) (\<lambda>h2.
           bnd (store64 h2 p a) (\<lambda>h3. bnd (store64 h3 (p + 8) pbw) K)))
         = K (h\<lparr>bytes := st (st (st (st (bytes h) slot p) (a + 8) (p + 8)) p a) (p + 8) pbw\<rparr>)"
  using assms by (simp add: bnd_def store64_plain store64_bytes)

lemma link_ok:
  assumes ok: "heap_ok h" and fl: "fl_ok h slot pbw pb ((a, as) # zs)"
    and sp: "unat slot + 16 \<le> pb"
    and pp: "pb \<le> unat p" "unat p + unat s \<le> unat a" "24 \<le> unat s" "s AND 1 = 0"
      "ld (bytes h) (p - 8) = s"
    and m': "m' = st (st (st (st (bytes h) slot p) (a + 8) (p + 8)) p a) (p + 8) pbw"
  shows "fl_ok (h\<lparr>bytes := m'\<rparr>) slot pbw pb ((p, s) # (a, as) # zs)"
    and "\<And>x. in_heap h x 8 \<Longrightarrow> unat x + 8 \<le> unat slot \<or> unat slot + 8 \<le> unat x
           \<Longrightarrow> unat x + 16 \<le> unat p \<Longrightarrow> ld m' x = ld (bytes h) x"
proof -
  have sp16: "16 \<le> pb" using sp by linarith
  note fa = fl_ok_facts [OF ok fl sp16]
  note aa = fa(1-14)
  have L: "unat (mem_start_brk h) \<le> unat slot" using fa(1) by (simp add: in_heap_def)
  have bp: "in_heap h (p - 8) 8" "in_heap h p 8" "in_heap h (p + 8) 8"
    "unat (p - 8) = unat p - 8" "unat (p + 8) = unat p + 8" "8 \<le> unat p"
    using L sp pp fa(11,13) by (intro block_facts [OF ok, of p s]; linarith)+
  define m1 where "m1 = st (bytes h) slot p"
  define m2 where "m2 = st m1 (a + 8) (p + 8)"
  define m3 where "m3 = st m2 p a"
  have m4: "m' = st m3 (p + 8) pbw" by (simp add: m' m1_def m2_def m3_def)
  have gen: "ld m' x = ld (bytes h) x"
    if "in_heap h x 8" "unat x + 8 \<le> unat slot \<or> unat slot + 8 \<le> unat x"
      "unat x + 8 \<le> unat p \<or> unat p + 16 \<le> unat x"
      "unat x \<le> unat a \<or> unat a + 16 \<le> unat x" for x
  proof -
    have "ld m' x = ld m3 x"
      unfolding m4 using bp that by (intro ld_st_heap [OF ok]) auto
    also have "\<dots> = ld m2 x"
      unfolding m3_def using bp that by (intro ld_st_heap [OF ok]) auto
    also have "\<dots> = ld m1 x"
      unfolding m2_def using aa that by (intro ld_st_heap [OF ok]) auto
    also have "\<dots> = ld (bytes h) x"
      unfolding m1_def using aa that by (intro ld_st_heap [OF ok]) auto
    finally show ?thesis .
  qed
  show "ld m' x = ld (bytes h) x"
    if "in_heap h x 8" "unat x + 8 \<le> unat slot \<or> unat slot + 8 \<le> unat x" "unat x + 16 \<le> unat p" for x
    using that pp by (intro gen) linarith+
  have 1: "ld m' slot = p"
  proof -
    have "ld m' slot = ld m3 slot"
      unfolding m4 using bp aa sp pp by (intro ld_st_heap [OF ok]) auto
    also have "\<dots> = ld m2 slot"
      unfolding m3_def using bp aa sp pp by (intro ld_st_heap [OF ok]) auto
    also have "\<dots> = ld m1 slot"
      unfolding m2_def using aa sp pp by (intro ld_st_heap [OF ok]) auto
    finally show ?thesis by (simp add: m1_def ld_st_same)
  qed
  have 2: "ld m' (p - 8) = s"
  proof -
    have "ld m' (p - 8) = ld (bytes h) (p - 8)"
      using sp pp(1,2) bp(4,6) by (intro gen [OF bp(1)]) auto
    then show ?thesis using pp(5) by simp
  qed
  have 3: "ld m' (p + 8) = pbw" by (simp add: m4 ld_st_same)
  have 4: "ld m' p = a"
  proof -
    have "ld m' p = ld m3 p"
      unfolding m4 using bp by (intro ld_st_heap [OF ok]) auto
    then show ?thesis by (simp add: m3_def ld_st_same)
  qed
  have 5: "ld m' (a + 8) = p + 8"
  proof -
    have "ld m' (a + 8) = ld m3 (a + 8)"
      unfolding m4 using bp aa pp by (intro ld_st_heap [OF ok]) auto
    also have "\<dots> = ld m2 (a + 8)"
      unfolding m3_def using bp aa pp by (intro ld_st_heap [OF ok]) auto
    finally show ?thesis by (simp add: m2_def ld_st_same)
  qed
  have rest: "fl_ok (h\<lparr>bytes := m'\<rparr>) p (p + 8) (unat p + unat s) ((a, as) # zs)"
  proof (rule fl_ok_relink [OF ok fl sp16 bp(2) 4 pp(2) 5])
    fix x assume "in_heap h x 8" "unat a \<le> unat x + 8" "unat x \<le> unat a \<or> unat a + 16 \<le> unat x"
    then show "ld m' x = ld (bytes h) x"
      using sp pp aa by (intro gen) auto
  qed
  show "fl_ok (h\<lparr>bytes := m'\<rparr>) slot pbw pb ((p, s) # (a, as) # zs)"
  proof (rule fl_ok_ConsI)
    show "fl_ok (h\<lparr>bytes := m'\<rparr>) p (p + 8) (unat p + unat s) ((a, as) # zs)" by (rule rest)
  qed (use aa bp pp 1 2 3 in simp_all)
qed


lemma coalesce_before_eq:
  assumes ok: "heap_ok h"
    and b: "in_heap h (b - 8) 8" "ld (bytes h) (b - 8) = bs" "in_heap h b 8"
    and p: "in_heap h (p - 8) 8" "in_heap h p 8" "ld (bytes h) p = a"
    and a: "in_heap h (a + 8) 8" "a \<noteq> 0"
    and d: "unat (b - 8) + 8 \<le> unat p"
  shows "coalesce_before b a p h
           = bnd (coalesce_after b p h) (\<lambda>h'. Inr (if b + bs = p then b else p, h'))"
proof -
  have l1: "ld (st (bytes h) (b - 8) v) p = a" for v
    using ld_st_heap [OF ok b(1) p(2), of "bytes h" v] d p(3) by simp
  have hb: "load64 h (b - 8) = Inr bs" using b by (simp add: load64_Inr_iff)
  show ?thesis
  proof (cases "b + bs = p")
    case False
    then show ?thesis
      using hb by (simp add: coalesce_before_def coalesce_after_def bnd_def mp_simps adj_iff)
  next
    case True
    then show ?thesis
      using hb b p a l1
      by (simp add: coalesce_before_def coalesce_after_def bnd_def mp_simps adj_iff
          load64_def store64_plain store64_bytes in_heap_bytes ld_st_same)
  qed
qed


lemma coalesce_succ_head: "\<exists>s' ys'. coalesce_succ (p, s) ys = (p, s') # ys'"
  by (cases ys) auto

lemma insert_between_ok:
  assumes ok: "heap_ok h" and fl: "fl_ok h slot pbw pb ((b, bs) # (a, as) # rest)"
    and sp: "unat slot + 16 \<le> pb"
    and pp: "unat b + unat bs \<le> unat p" "unat p + unat s \<le> unat a" "24 \<le> unat s" "s AND 1 = 0"
      "ld (bytes h) (p - 8) = s"
  shows "\<exists>m'. insert_between b a p h = Inr (h\<lparr>bytes := m'\<rparr>)
           \<and> fl_ok (h\<lparr>bytes := m'\<rparr>) slot pbw pb
                (if b + bs = p then coalesce_succ (b, bs + s) ((a, as) # rest)
                 else (b, bs) # coalesce_succ (p, s) ((a, as) # rest))
           \<and> (\<forall>x. in_heap h x 8 \<longrightarrow> unat x + 16 \<le> unat b \<longrightarrow> ld m' x = ld (bytes h) x)"
proof -
  have sp16: "16 \<le> pb" using sp by linarith
  note fb = fl_ok_facts [OF ok fl sp16]
  note ab = fb(1-14)
  have spb: "unat b + 16 \<le> unat b + unat bs" using fb(11) by linarith
  have spb16: "16 \<le> unat b + unat bs" using fb(11) by linarith
  note fa = fl_ok_facts [OF ok fb(15) spb16]
  note aa = fa(1-14)
  have L: "unat (mem_start_brk h) \<le> unat slot" using fb(1) by (simp add: in_heap_def)
  have bp: "in_heap h (p - 8) 8" "in_heap h p 8" "in_heap h (p + 8) 8"
    "unat (p - 8) = unat p - 8" "unat (p + 8) = unat p + 8" "8 \<le> unat p"
    using L sp pp fb(10,11) fa(11,13) by (intro block_facts [OF ok, of p s]; linarith)+
  define M0 where "M0 = st (st (st (st (bytes h) b p) (a + 8) (p + 8)) p a) (p + 8) (b + 8)"
  define h4 where "h4 = h\<lparr>bytes := M0\<rparr>"
  have ok4: "heap_ok h4" using ok by (simp add: h4_def heap_ok_bytes)
  have ih4: "in_heap h4 x k = in_heap h x k" for x k by (simp add: h4_def in_heap_bytes)
  have b4: "bytes h4 = M0" "mem_start_brk h4 = mem_start_brk h" "mem_brk h4 = mem_brk h"
    by (simp_all add: h4_def)
  have upd: "h4\<lparr>bytes := m\<rparr> = h\<lparr>bytes := m\<rparr>" for m by (simp add: h4_def)
  note link = link_ok [OF ok fb(15) spb pp(1,2,3,4,5) M0_def]
  have run1: "insert_between b a p h
                = bnd (coalesce_before b a p h4) (\<lambda>(ptr', h5). coalesce_after ptr' a h5)"
    unfolding insert_between_def mp_simps h4_def M0_def
    using fb(5) fa(6) bp(2,3) by (rule link_run)
  have w: "ld M0 slot = b" "ld M0 (b - 8) = bs" "ld M0 (b + 8) = pbw"
  proof -
    have "ld M0 slot = ld (bytes h) slot"
      using fb(1) ab sp pp by (intro link(2)) auto
    then show "ld M0 slot = b" using fb(2) by simp
    have "ld M0 (b - 8) = ld (bytes h) (b - 8)"
      using fb(3) ab pp by (intro link(2)) auto
    then show "ld M0 (b - 8) = bs" using fb(4) by simp
    have "ld M0 (b + 8) = ld (bytes h) (b + 8)"
      using fb(6) ab pp by (intro link(2)) auto
    then show "ld M0 (b + 8) = pbw" using fb(7) by simp
  qed
  have A1: "fl_ok h4 slot pbw pb ((b, bs) # (p, s) # (a, as) # rest)"
    unfolding h4_def
  proof (rule fl_ok_ConsI)
    show "fl_ok (h\<lparr>bytes := M0\<rparr>) b (b + 8) (unat b + unat bs) ((p, s) # (a, as) # rest)"
      by (rule link(1))
  qed (use ab w in simp_all)
  note f4b = fl_ok_facts [OF ok4 A1 sp16]
  note f4p = fl_ok_facts [OF ok4 f4b(15) spb16]
  have spp16: "16 \<le> unat p + unat s" using pp(3) by linarith
  note f4a = fl_ok_facts [OF ok4 f4p(15) spp16]
  have anz: "a \<noteq> 0" using fa(10) spb16 by auto
  have cb: "coalesce_before b a p h4
              = bnd (coalesce_after b p h4) (\<lambda>h'. Inr (if b + bs = p then b else p, h'))"
    using ok4 f4b(3,4,5) f4p(3,5) f4a(2,6) anz
    by (rule coalesce_before_eq) (use ab pp in simp)
  from coalesce_after_ok [OF ok4 A1 sp] obtain m5 where
    c1: "coalesce_after b p h4 = Inr (h\<lparr>bytes := m5\<rparr>)"
    and fl5: "fl_ok (h\<lparr>bytes := m5\<rparr>) slot pbw pb (coalesce_succ (b, bs) ((p, s) # (a, as) # rest))"
    and fr5: "\<And>x. in_heap h x 8 \<Longrightarrow> unat x + 16 \<le> unat b \<Longrightarrow> ld m5 x = ld M0 x"
    unfolding upd ih4 b4 by blast
  define h5 where "h5 = h\<lparr>bytes := m5\<rparr>"
  have ok5: "heap_ok h5" using ok by (simp add: h5_def heap_ok_bytes)
  have ih5: "in_heap h5 x k = in_heap h x k" for x k by (simp add: h5_def in_heap_bytes)
  have b5: "bytes h5 = m5" by (simp add: h5_def)
  have upd5: "h5\<lparr>bytes := m\<rparr> = h\<lparr>bytes := m\<rparr>" for m by (simp add: h5_def)
  have fr0: "ld M0 x = ld (bytes h) x" if "in_heap h x 8" "unat x + 16 \<le> unat b" for x
    using that pp(1) by (intro link(2)) auto
  show ?thesis
  proof (cases "b + bs = p")
    case True
    have fl5': "fl_ok h5 slot pbw pb ((b, bs + s) # (a, as) # rest)"
      using fl5 True by (simp add: h5_def)
    from coalesce_after_ok [OF ok5 fl5' sp] obtain m6 where
      c2: "coalesce_after b a h5 = Inr (h\<lparr>bytes := m6\<rparr>)"
      and fl6: "fl_ok (h\<lparr>bytes := m6\<rparr>) slot pbw pb (coalesce_succ (b, bs + s) ((a, as) # rest))"
      and fr6: "\<And>x. in_heap h x 8 \<Longrightarrow> unat x + 16 \<le> unat b \<Longrightarrow> ld m6 x = ld m5 x"
      unfolding upd5 ih5 b5 by blast
    have "insert_between b a p h = Inr (h\<lparr>bytes := m6\<rparr>)"
      using True c1 c2 by (simp add: run1 cb bnd_def h5_def)
    moreover have "ld m6 x = ld (bytes h) x" if "in_heap h x 8" "unat x + 16 \<le> unat b" for x
      using fr6 [OF that] fr5 [OF that] fr0 [OF that] by simp
    ultimately show ?thesis using fl6 True by auto
  next
    case False
    have fl5': "fl_ok h5 slot pbw pb ((b, bs) # (p, s) # (a, as) # rest)"
      using fl5 False by (simp add: h5_def)
    note f5b = fl_ok_facts [OF ok5 fl5' sp16]
    from coalesce_after_ok [OF ok5 f5b(15) spb] obtain m6 where
      c2: "coalesce_after p a h5 = Inr (h\<lparr>bytes := m6\<rparr>)"
      and fl6: "fl_ok (h\<lparr>bytes := m6\<rparr>) b (b + 8) (unat b + unat bs) (coalesce_succ (p, s) ((a, as) # rest))"
      and fr6: "\<And>x. in_heap h x 8 \<Longrightarrow> unat x + 16 \<le> unat p \<Longrightarrow> ld m6 x = ld m5 x"
      unfolding upd5 ih5 b5 by blast
    have run: "insert_between b a p h = Inr (h\<lparr>bytes := m6\<rparr>)"
      using False c1 c2 by (simp add: run1 cb bnd_def h5_def)
    have w6: "ld m6 slot = b" "ld m6 (b - 8) = bs" "ld m6 (b + 8) = pbw"
    proof -
      have "ld m6 slot = ld m5 slot" using ab sp pp(1) by (intro fr6) auto
      then show "ld m6 slot = b" using f5b(2) b5 by simp
      have "ld m6 (b - 8) = ld m5 (b - 8)" using ab pp(1) by (intro fr6) auto
      then show "ld m6 (b - 8) = bs" using f5b(4) b5 by simp
      have "ld m6 (b + 8) = ld m5 (b + 8)" using ab pp(1) by (intro fr6) auto
      then show "ld m6 (b + 8) = pbw" using f5b(7) b5 by simp
    qed
    have "fl_ok (h\<lparr>bytes := m6\<rparr>) slot pbw pb ((b, bs) # coalesce_succ (p, s) ((a, as) # rest))"
    proof (rule fl_ok_ConsI)
      show "fl_ok (h\<lparr>bytes := m6\<rparr>) b (b + 8) (unat b + unat bs) (coalesce_succ (p, s) ((a, as) # rest))"
        by (rule fl6)
    qed (use ab w6 in simp_all)
    moreover have "ld m6 x = ld (bytes h) x" if "in_heap h x 8" "unat x + 16 \<le> unat b" for x
    proof -
      have "unat x + 16 \<le> unat p" using that(2) pp(1) by linarith
      then show ?thesis using fr6 [OF that(1)] fr5 [OF that] fr0 [OF that] by simp
    qed
    ultimately show ?thesis using run False by auto
  qed
qed


lemma append_slot_ok:
  assumes ok: "heap_ok h" and slot: "in_heap h slot 8" and sp: "unat slot + 16 \<le> pb"
    and pp: "pb \<le> unat p" "24 \<le> unat s" "s AND 1 = 0" "ld (bytes h) (p - 8) = s"
      "unat p + unat s \<le> unat (mem_start_brk h) + unat (mem_brk h) + 8"
    and m': "m' = st (st (st (bytes h) slot p) (p + 8) pbw) p 0"
  shows "fl_ok (h\<lparr>bytes := m'\<rparr>) slot pbw pb [(p, s)]"
    and "\<And>x. in_heap h x 8 \<Longrightarrow> unat x + 8 \<le> unat slot \<or> unat slot + 8 \<le> unat x
           \<Longrightarrow> unat x + 8 \<le> unat p \<Longrightarrow> ld m' x = ld (bytes h) x"
proof -
  have L: "unat (mem_start_brk h) \<le> unat slot" using slot by (simp add: in_heap_def)
  have bp: "in_heap h (p - 8) 8" "in_heap h p 8" "in_heap h (p + 8) 8"
    "unat (p - 8) = unat p - 8" "unat (p + 8) = unat p + 8" "8 \<le> unat p"
    using L sp pp by (intro block_facts [OF ok, of p s]; linarith)+
  define m1 where "m1 = st (bytes h) slot p"
  define m2 where "m2 = st m1 (p + 8) pbw"
  have m3: "m' = st m2 p 0" by (simp add: m' m1_def m2_def)
  show gen: "ld m' x = ld (bytes h) x"
    if "in_heap h x 8" "unat x + 8 \<le> unat slot \<or> unat slot + 8 \<le> unat x" "unat x + 8 \<le> unat p" for x
  proof -
    have "ld m' x = ld m2 x"
      unfolding m3 using bp that by (intro ld_st_heap [OF ok]) auto
    also have "\<dots> = ld m1 x"
      unfolding m2_def using bp that by (intro ld_st_heap [OF ok]) auto
    also have "\<dots> = ld (bytes h) x"
      unfolding m1_def using slot that by (intro ld_st_heap [OF ok]) auto
    finally show ?thesis .
  qed
  have 1: "ld m' slot = p"
  proof -
    have "ld m' slot = ld m2 slot"
      unfolding m3 using bp slot sp pp by (intro ld_st_heap [OF ok]) auto
    also have "\<dots> = ld m1 slot"
      unfolding m2_def using bp slot sp pp by (intro ld_st_heap [OF ok]) auto
    finally show ?thesis by (simp add: m1_def ld_st_same)
  qed
  have 2: "ld m' (p - 8) = s"
  proof -
    have "ld m' (p - 8) = ld (bytes h) (p - 8)"
      using sp pp(1) bp(4,6) by (intro gen [OF bp(1)]) auto
    then show ?thesis using pp(4) by simp
  qed
  have 3: "ld m' (p + 8) = pbw"
  proof -
    have "ld m' (p + 8) = ld m2 (p + 8)"
      unfolding m3 using bp by (intro ld_st_heap [OF ok]) auto
    then show ?thesis by (simp add: m2_def ld_st_same)
  qed
  have 4: "ld m' p = 0" by (simp add: m3 ld_st_same)
  show "fl_ok (h\<lparr>bytes := m'\<rparr>) slot pbw pb [(p, s)]"
  proof (rule fl_ok_ConsI)
    show "fl_ok (h\<lparr>bytes := m'\<rparr>) p (p + 8) (unat p + unat s) []"
      using bp(2) 4 by (rule fl_ok_NilI)
  qed (use slot bp pp 1 2 3 in simp_all)
qed

lemma append_ok:
  assumes ok: "heap_ok h" and fl: "fl_ok h slot pbw pb [(b, bs)]" and sp: "unat slot + 16 \<le> pb"
    and pp: "unat b + unat bs \<le> unat p" "24 \<le> unat s" "s AND 1 = 0" "ld (bytes h) (p - 8) = s"
      "unat p + unat s \<le> unat (mem_start_brk h) + unat (mem_brk h) + 8"
  shows "\<exists>m'. append_block False b p h = Inr (h\<lparr>bytes := m'\<rparr>)
           \<and> fl_ok (h\<lparr>bytes := m'\<rparr>) slot pbw pb
                (if b + bs = p then [(b, bs + s)] else [(b, bs), (p, s)])
           \<and> (\<forall>x. in_heap h x 8 \<longrightarrow> unat x + 16 \<le> unat b \<longrightarrow> ld m' x = ld (bytes h) x)"
proof -
  have sp16: "16 \<le> pb" using sp by linarith
  note fb = fl_ok_facts [OF ok fl sp16]
  note ab = fb(1-14)
  note E = heap_end_small [OF ok]
  have spb: "unat b + 16 \<le> unat b + unat bs" using fb(11) by linarith
  have L: "unat (mem_start_brk h) \<le> unat slot" using fb(1) by (simp add: in_heap_def)
  have bp: "in_heap h (p - 8) 8" "in_heap h p 8" "in_heap h (p + 8) 8"
    "unat (p - 8) = unat p - 8" "unat (p + 8) = unat p + 8" "8 \<le> unat p"
    using L sp pp fb(10,11) by (intro block_facts [OF ok, of p s]; linarith)+
  have hb: "load64 h (b - 8) = Inr bs" "load64 h (p - 8) = Inr s"
    using fb(3,4) bp(1) pp(4) by (simp_all add: load64_Inr_iff)
  have adj: "(b + bs = p) = (unat b + unat bs = unat p)"
    using pp(1,2,5) E by (intro word_sum_eq_iff) linarith
  show ?thesis
  proof (cases "b + bs = p")
    case True
    then have ua: "unat b + unat bs = unat p" using adj by simp
    have us: "unat (bs + s) = unat bs + unat s"
      using ua pp(5) fb(14) E by (intro unat_sum_sizes) linarith
    define m1 where "m1 = st (bytes h) (b - 8) (bs + s)"
    define m' where "m' = st (st m1 b 0) b 0"
    have run: "append_block False b p h = Inr (h\<lparr>bytes := m'\<rparr>)"
      using True hb fb(3,5)
      by (simp add: append_block_def mp_simps bnd_def adj_iff store64_plain store64_bytes
          m1_def [symmetric] m'_def)
    have gen: "ld m' x = ld (bytes h) x"
      if "in_heap h x 8" "unat x + 16 \<le> unat b \<or> unat b + 8 \<le> unat x" for x
    proof -
      have "ld m' x = ld (st m1 b 0) x"
        unfolding m'_def using ab that by (intro ld_st_heap [OF ok]) auto
      also have "\<dots> = ld m1 x"
        using ab that by (intro ld_st_heap [OF ok]) auto
      also have "\<dots> = ld (bytes h) x"
        unfolding m1_def using ab that by (intro ld_st_heap [OF ok]) auto
      finally show ?thesis .
    qed
    have 1: "ld m' slot = b" using gen [OF fb(1)] ab sp by simp
    have 2: "ld m' (b - 8) = bs + s"
    proof -
      have "ld m' (b - 8) = ld (st m1 b 0) (b - 8)"
        unfolding m'_def using ab by (intro ld_st_heap [OF ok]) auto
      also have "\<dots> = ld m1 (b - 8)"
        using ab by (intro ld_st_heap [OF ok]) auto
      finally show ?thesis by (simp add: m1_def ld_st_same)
    qed
    have 3: "ld m' (b + 8) = pbw" using gen [OF fb(6)] ab by simp
    have 4: "ld m' b = 0" by (simp add: m'_def ld_st_same)
    have "fl_ok (h\<lparr>bytes := m'\<rparr>) slot pbw pb [(b, bs + s)]"
    proof (rule fl_ok_ConsI)
      show "fl_ok (h\<lparr>bytes := m'\<rparr>) b (b + 8) (unat b + unat (bs + s)) []"
        using fb(5) 4 by (rule fl_ok_NilI)
    qed (use ab pp 1 2 3 us ua in \<open>simp_all add: even_sum\<close>)
    then show ?thesis using run gen True by auto
  next
    case False
    define m' where "m' = st (st (st (bytes h) b p) (p + 8) (b + 8)) p 0"
    have run: "append_block False b p h = Inr (h\<lparr>bytes := m'\<rparr>)"
      using False hb fb(5) bp(2,3)
      by (simp add: append_block_def mp_simps bnd_def adj_iff store64_plain store64_bytes m'_def)
    note app = append_slot_ok [OF ok fb(5) spb pp m'_def]
    have w: "ld m' slot = b" "ld m' (b - 8) = bs" "ld m' (b + 8) = pbw"
    proof -
      have "ld m' slot = ld (bytes h) slot"
        using fb(1) ab sp pp(1) by (intro app(2)) auto
      then show "ld m' slot = b" using fb(2) by simp
      have "ld m' (b - 8) = ld (bytes h) (b - 8)"
        using fb(3) ab pp(1) by (intro app(2)) auto
      then show "ld m' (b - 8) = bs" using fb(4) by simp
      have "ld m' (b + 8) = ld (bytes h) (b + 8)"
        using fb(6) ab pp(1) by (intro app(2)) auto
      then show "ld m' (b + 8) = pbw" using fb(7) by simp
    qed
    have "fl_ok (h\<lparr>bytes := m'\<rparr>) slot pbw pb [(b, bs), (p, s)]"
    proof (rule fl_ok_ConsI)
      show "fl_ok (h\<lparr>bytes := m'\<rparr>) b (b + 8) (unat b + unat bs) [(p, s)]" by (rule app(1))
    qed (use ab w in simp_all)
    moreover have "ld m' x = ld (bytes h) x" if "in_heap h x 8" "unat x + 16 \<le> unat b" for x
      using that pp(1) by (intro app(2)) auto
    ultimately show ?thesis using run False by auto
  qed
qed


lemma fl_ok_size:
  assumes "fl_ok h slot pbw pb xs" "(n, s) \<in> set xs"
  shows "24 \<le> unat s"
  using assms
proof (induction xs arbitrary: slot pbw pb)
  case Nil
  then show ?case by simp
next
  case (Cons y ys)
  obtain n1 s1 where y: "y = (n1, s1)" by (cases y)
  from Cons.prems(1) have f: "24 \<le> unat s1" "fl_ok h n1 (n1 + 8) (unat n1 + unat s1) ys"
    unfolding y fl_ok_Cons by blast+
  show ?case
  proof (cases "(n, s) = y")
    case True
    then show ?thesis using f(1) y by simp
  next
    case False
    then have "(n, s) \<in> set ys" using Cons.prems(2) by simp
    with f(2) show ?thesis by (rule Cons.IH)
  qed
qed

lemma free_walk_ok:
  assumes ok: "heap_ok h"
    and pp: "24 \<le> unat s" "s AND 1 = 0" "ld (bytes h) (p - 8) = s"
      "unat p + unat s \<le> unat (mem_start_brk h) + unat (mem_brk h) + 8"
    and fl: "fl_ok h slot pbw pb ((b, bs) # xs)" and sp: "unat slot + 16 \<le> pb"
    and bp: "unat b + unat bs \<le> unat p"
    and ap: "apart p s xs"
  shows "\<exists>m'. bnd (terminated (free_loop h b p))
                (\<lambda>r. case r of Inl h' \<Rightarrow> Inr h' | Inr bb \<Rightarrow> append_block False bb p h)
              = Inr (h\<lparr>bytes := m'\<rparr>)
           \<and> fl_ok (h\<lparr>bytes := m'\<rparr>) slot pbw pb (free_insert (p, s) ((b, bs) # xs))
           \<and> (\<forall>x. in_heap h x 8 \<longrightarrow> unat x + 16 \<le> unat b \<longrightarrow> ld m' x = ld (bytes h) x)"
  using fl sp bp ap
proof (induction xs arbitrary: slot pbw pb b bs)
  case Nil
  have sp16: "16 \<le> pb" using Nil.prems(2) by linarith
  note fb = fl_ok_facts [OF ok Nil.prems(1) sp16]
  have lb: "load64 h b = Inr 0"
    using fl_ok_slot [OF fb(15)] by (simp add: load64_Inr_iff)
  have loop: "free_loop h b p = Some (Inr (Inr b))"
    by (subst free_loop.simps) (simp add: lb)
  have nl: "\<not> p < b" using Nil.prems(3) by (simp add: word_less_nat_alt)
  from append_ok [OF ok Nil.prems(1,2,3) pp] obtain m' where
    "append_block False b p h = Inr (h\<lparr>bytes := m'\<rparr>)"
    "fl_ok (h\<lparr>bytes := m'\<rparr>) slot pbw pb (if b + bs = p then [(b, bs + s)] else [(b, bs), (p, s)])"
    "\<And>x. in_heap h x 8 \<Longrightarrow> unat x + 16 \<le> unat b \<Longrightarrow> ld m' x = ld (bytes h) x"
    by blast
  then show ?case using nl by (auto simp add: loop bnd_def terminated_def)
next
  case (Cons y ys)
  obtain a as where y: "y = (a, as)" by (cases y)
  have sp16: "16 \<le> pb" using Cons.prems(2) by linarith
  note fl' = Cons.prems(1) [unfolded y]
  note fb = fl_ok_facts [OF ok fl' sp16]
  note ab = fb(1-14)
  have spb: "unat b + 16 \<le> unat b + unat bs" using fb(11) by linarith
  have spb16: "16 \<le> unat b + unat bs" using fb(11) by linarith
  note fa = fl_ok_facts [OF ok fb(15) spb16]
  have lb: "load64 h b = Inr a" using fa(1,2) by (simp add: load64_Inr_iff)
  have anz: "a \<noteq> 0" using fa(10) spb16 by auto
  have nl: "\<not> p < b" using Cons.prems(3) by (simp add: word_less_nat_alt)
  have apa: "unat a + unat as \<le> unat p \<or> unat p + unat s \<le> unat a" and apr: "apart p s ys"
    using Cons.prems(4) by (auto simp add: apart_def y)
  show ?case
  proof (cases "p < a")
    case True
    then have pa: "unat p + unat s \<le> unat a"
      using apa by (auto simp add: word_less_nat_alt)
    have loop: "free_loop h b p = Some (bnd (insert_between b a p h) (\<lambda>h'. Inr (Inl h')))"
      using True anz by (subst free_loop.simps) (simp add: lb)
    from insert_between_ok [OF ok fl' Cons.prems(2,3) pa pp(1,2,3)] obtain m' where
      "insert_between b a p h = Inr (h\<lparr>bytes := m'\<rparr>)"
      "fl_ok (h\<lparr>bytes := m'\<rparr>) slot pbw pb
         (if b + bs = p then coalesce_succ (b, bs + s) ((a, as) # ys)
          else (b, bs) # coalesce_succ (p, s) ((a, as) # ys))"
      "\<And>x. in_heap h x 8 \<Longrightarrow> unat x + 16 \<le> unat b \<Longrightarrow> ld m' x = ld (bytes h) x"
      by blast
    then show ?thesis
      using nl True unfolding y by (auto simp add: loop bnd_def terminated_def)
  next
    case False
    then have pa: "unat a + unat as \<le> unat p"
      using apa pp(1) by (auto simp add: word_less_nat_alt)
    have loop: "free_loop h b p = free_loop h a p"
      using False anz by (subst free_loop.simps) (simp add: lb)
    from Cons.IH [OF fb(15) spb pa apr] obtain m' where
      run: "bnd (terminated (free_loop h a p))
              (\<lambda>r. case r of Inl h' \<Rightarrow> Inr h' | Inr bb \<Rightarrow> append_block False bb p h)
            = Inr (h\<lparr>bytes := m'\<rparr>)"
      and fl6: "fl_ok (h\<lparr>bytes := m'\<rparr>) b (b + 8) (unat b + unat bs) (free_insert (p, s) ((a, as) # ys))"
      and fr: "\<And>x. in_heap h x 8 \<Longrightarrow> unat x + 16 \<le> unat a \<Longrightarrow> ld m' x = ld (bytes h) x"
      by blast
    have w: "ld m' slot = b" "ld m' (b - 8) = bs" "ld m' (b + 8) = pbw"
    proof -
      have "ld m' slot = ld (bytes h) slot"
        using fb(1) ab fa(10) Cons.prems(2) by (intro fr) auto
      then show "ld m' slot = b" using fb(2) by simp
      have "ld m' (b - 8) = ld (bytes h) (b - 8)"
        using fb(3) ab fa(10) by (intro fr) auto
      then show "ld m' (b - 8) = bs" using fb(4) by simp
      have "ld m' (b + 8) = ld (bytes h) (b + 8)"
        using fb(6) ab fa(10) by (intro fr) auto
      then show "ld m' (b + 8) = pbw" using fb(7) by simp
    qed
    have "fl_ok (h\<lparr>bytes := m'\<rparr>) slot pbw pb ((b, bs) # free_insert (p, s) ((a, as) # ys))"
    proof (rule fl_ok_ConsI)
      show "fl_ok (h\<lparr>bytes := m'\<rparr>) b (b + 8) (unat b + unat bs) (free_insert (p, s) ((a, as) # ys))"
        by (rule fl6)
    qed (use ab w in simp_all)
    moreover have "free_insert (p, s) ((b, bs) # y # ys) = (b, bs) # free_insert (p, s) ((a, as) # ys)"
      using nl False by (simp add: y)
    moreover have "ld m' x = ld (bytes h) x" if "in_heap h x 8" "unat x + 16 \<le> unat b" for x
      using that fa(10) fb(11) by (intro fr) auto
    ultimately show ?thesis using run by (auto simp add: loop)
  qed
qed


lemma mm_free_ok:
  assumes fl: "free_list h0 xs" and blk: "allocated_block h0 p s" and ap: "apart p s xs"
  shows "\<exists>m'. mm_free p h0 = Inr (h0\<lparr>bytes := m'\<rparr>)
           \<and> free_list (h0\<lparr>bytes := m'\<rparr>) (free_insert (p, s) xs)"
proof -
  have ok0: "heap_ok h0" and fl0: "fl_ok h0 (mem_start_brk h0) 0 (unat (mem_start_brk h0) + 16) xs"
    using fl by (simp_all add: free_list_def mem_heap_lo_def)
  have hdr: "load64 h0 (p - 8) = Inr (s + 1)" and ev: "s AND 1 = 0" and sz: "24 \<le> unat s"
    and lo: "unat (mem_start_brk h0) + 16 \<le> unat p"
    and hi: "unat p + unat s \<le> unat (mem_start_brk h0) + unat (mem_brk h0) + 8"
    using blk by (simp_all add: allocated_block_def mp_simps mem_heap_lo_def)
  note bp = block_facts [OF ok0 lo sz hi]
  define h where "h = h0\<lparr>bytes := st (bytes h0) (p - 8) s\<rparr>"
  have ok: "heap_ok h" using ok0 by (simp add: h_def heap_ok_bytes)
  have ih: "in_heap h x k = in_heap h0 x k" for x k by (simp add: h_def in_heap_bytes)
  have bh: "bytes h = st (bytes h0) (p - 8) s" "mem_start_brk h = mem_start_brk h0"
    "mem_brk h = mem_brk h0"
    by (simp_all add: h_def)
  have upd: "h\<lparr>bytes := m\<rparr> = h0\<lparr>bytes := m\<rparr>" for m by (simp add: h_def)
  have st0: "store64 h0 (p - 8) s = Inr h"
    using bp(1) by (simp add: store64_plain h_def)
  have lp: "ld (bytes h) (p - 8) = s" by (simp add: bh ld_st_same)
  have cf: "(s + 1) AND - 2 = s" using clear_flag [OF ev] by simp
  have same: "load64 h x = load64 h0 x"
    if "in_heap h0 x 8" "unat x + 16 \<le> unat p \<or> unat p \<le> unat x" for x
  proof -
    have "ld (st (bytes h0) (p - 8) s) x = ld (bytes h0) x"
      using bp that by (intro ld_st_heap [OF ok0]) auto
    then show ?thesis using that(1) by (simp add: load64_def ih bh)
  qed
  have sp: "unat (mem_start_brk h0) + 16 \<le> unat (mem_start_brk h0) + 16" by simp
  have il: "in_heap h0 (mem_start_brk h0) 8" using fl_ok_slot(1) [OF fl0] .
  have flh: "fl_ok h (mem_start_brk h0) 0 (unat (mem_start_brk h0) + 16) xs"
  proof (rule fl_ok_cong [OF fl0])
    show "load64 h (mem_start_brk h0) = load64 h0 (mem_start_brk h0)"
      using il lo by (intro same) auto
    fix n t assume nt: "(n, t) \<in> set xs"
    have g: "in_heap h0 (n - 8) 8 \<and> in_heap h0 n 8 \<and> in_heap h0 (n + 8) 8
      \<and> unat (mem_start_brk h0) + 16 \<le> unat n \<and> unat (n - 8) = unat n - 8 \<and> unat (n + 8) = unat n + 8"
      using fl_ok_mem [OF ok0 fl0 _ nt] by simp
    have t24: "24 \<le> unat t" using fl_ok_size [OF fl0 nt] .
    have d: "unat n + unat t \<le> unat p \<or> unat p + unat s \<le> unat n"
      using ap nt by (auto simp add: apart_def)
    show "load64 h (n - 8) = load64 h0 (n - 8) \<and> load64 h n = load64 h0 n
           \<and> load64 h (n + 8) = load64 h0 (n + 8)"
      using g t24 d sz by (intro conjI same) auto
  qed (simp_all add: bh)
  show ?thesis
  proof (cases xs)
    case Nil
    have first: "load64 h (mem_start_brk h0) = Inr 0"
      using flh Nil by simp
    have loop: "free_loop h (mem_start_brk h0) p = Some (Inr (Inr (mem_start_brk h0)))"
      by (subst free_loop.simps) (simp add: first)
    define m' where "m' = st (st (st (bytes h) (mem_start_brk h0) p) (p + 8) 0) p 0"
    have "mm_free p h0 = append_block True (mem_start_brk h0) p h"
      using hdr st0 first loop
      by (simp add: mm_free_def bnd_def mp_simps cf mem_heap_lo_def bh terminated_def)
    also have "\<dots> = Inr (h0\<lparr>bytes := m'\<rparr>)"
      using il bp(2,3)
      by (simp add: append_block_def bnd_def mp_simps store64_plain store64_bytes ih m'_def upd)
    finally have run: "mm_free p h0 = Inr (h0\<lparr>bytes := m'\<rparr>)" .
    have "fl_ok (h\<lparr>bytes := m'\<rparr>) (mem_start_brk h0) 0 (unat (mem_start_brk h0) + 16) [(p, s)]"
      using ok _ _ _ sz ev lp _ m'_def
      by (rule append_slot_ok(1)) (use il lo hi in \<open>simp_all add: ih bh\<close>)
    then show ?thesis
      using run ok0 Nil by (auto simp add: free_list_def heap_ok_bytes mem_heap_lo_def upd)
  next
    case (Cons y ys)
    obtain n t where y: "y = (n, t)" by (cases y)
    note flh' = flh [unfolded Cons y]
    have sp16: "16 \<le> unat (mem_start_brk h0) + 16" by simp
    note fn = fl_ok_facts [OF ok flh' sp16]
    have first: "load64 h (mem_start_brk h0) = Inr n"
      using fn(1,2) by (simp add: load64_Inr_iff)
    have n16: "unat (mem_start_brk h0) + 16 \<le> unat n" "24 \<le> unat t"
      using fn(10,11) by simp_all
    have nnz: "n \<noteq> 0" using n16 by auto
    have apn: "unat n + unat t \<le> unat p \<or> unat p + unat s \<le> unat n" and apr: "apart p s ys"
      using ap by (auto simp add: apart_def Cons y)
    show ?thesis
    proof (cases "p < n")
      case True
      then have pn: "unat p + unat s \<le> unat n"
        using apn by (auto simp add: word_less_nat_alt)
      define M0 where "M0 = st (st (st (st (bytes h) (mem_start_brk h0) p) (n + 8) (p + 8)) p n) (p + 8) 0"
      define h4 where "h4 = h0\<lparr>bytes := M0\<rparr>"
      have ok4: "heap_ok h4" using ok0 by (simp add: h4_def heap_ok_bytes)
      have upd4: "h4\<lparr>bytes := m\<rparr> = h0\<lparr>bytes := m\<rparr>" for m by (simp add: h4_def)
      have in8: "in_heap h0 (n + 8) 8"
        using fn(6) by (simp add: ih)
      have "mm_free p h0 = bnd (store64 h (mem_start_brk h0) p) (\<lambda>h1.
              bnd (store64 h1 (n + 8) (p + 8)) (\<lambda>h2. bnd (store64 h2 p n) (\<lambda>h3.
              bnd (store64 h3 (p + 8) 0) (coalesce_after p n))))"
        using hdr st0 first nnz True
        by (simp add: mm_free_def bnd_def mp_simps cf mem_heap_lo_def bh)
      also have "\<dots> = coalesce_after p n h4"
        unfolding h4_def M0_def upd [symmetric]
        by (rule link_run) (use il bp(2,3) in8 in \<open>simp_all add: ih\<close>)
      finally have run1: "mm_free p h0 = coalesce_after p n h4" .
      have A1: "fl_ok h4 (mem_start_brk h0) 0 (unat (mem_start_brk h0) + 16) ((p, s) # (n, t) # ys)"
        unfolding h4_def upd [symmetric]
        using ok flh' sp lo pn sz ev lp M0_def by (rule link_ok(1))
      from coalesce_after_ok [OF ok4 A1 sp] obtain m' where
        "coalesce_after p n h4 = Inr (h0\<lparr>bytes := m'\<rparr>)"
        "fl_ok (h0\<lparr>bytes := m'\<rparr>) (mem_start_brk h0) 0 (unat (mem_start_brk h0) + 16)
           (coalesce_succ (p, s) ((n, t) # ys))"
        unfolding upd4 by blast
      then show ?thesis
        using run1 ok0 True Cons y
        by (auto simp add: free_list_def heap_ok_bytes mem_heap_lo_def)
    next
      case False
      then have np: "unat n + unat t \<le> unat p"
        using apn sz by (auto simp add: word_less_nat_alt)
      have run1: "mm_free p h0 = bnd (terminated (free_loop h n p))
                (\<lambda>r. case r of Inl h' \<Rightarrow> Inr h' | Inr bb \<Rightarrow> append_block False bb p h)"
        using hdr st0 first nnz False
        by (simp add: mm_free_def bnd_def mp_simps cf mem_heap_lo_def bh)
      from free_walk_ok [OF ok sz ev lp _ flh' sp np apr] hi obtain m' where
        "bnd (terminated (free_loop h n p))
                (\<lambda>r. case r of Inl h' \<Rightarrow> Inr h' | Inr bb \<Rightarrow> append_block False bb p h)
          = Inr (h0\<lparr>bytes := m'\<rparr>)"
        "fl_ok (h0\<lparr>bytes := m'\<rparr>) (mem_start_brk h0) 0 (unat (mem_start_brk h0) + 16)
           (free_insert (p, s) ((n, t) # ys))"
        unfolding upd bh by blast
      then show ?thesis
        using run1 ok0 Cons y
        by (auto simp add: free_list_def heap_ok_bytes mem_heap_lo_def)
    qed
  qed
qed


lemma coalesce_succ_covers:
  assumes "unat (mem_start_brk h) + unat (mem_brk h) < 2 ^ 64" "16 \<le> unat q"
    and "\<And>a t ys'. ys = (a, t) # ys' \<Longrightarrow> unat q + unat u \<le> unat a
           \<and> unat a + unat t \<le> unat (mem_start_brk h) + unat (mem_brk h) + 8"
  shows "\<exists>t. (q, t) \<in> set (coalesce_succ (q, u) ys) \<and> unat u \<le> unat t"
proof (cases ys)
  case Nil
  then show ?thesis by simp
next
  case (Cons y ys')
  obtain a t where y: "y = (a, t)" by (cases y)
  have f: "unat q + unat u \<le> unat a"
    "unat a + unat t \<le> unat (mem_start_brk h) + unat (mem_brk h) + 8"
    using assms(3) [of a t ys'] Cons y by simp_all
  have "unat (u + t) = unat u + unat t"
    using f assms(1,2) by (intro unat_sum_sizes) linarith
  then show ?thesis by (auto simp add: Cons y)
qed

lemma free_insert_covers:
  assumes ok: "heap_ok h" and fl: "fl_ok h slot pbw pb xs" and sp: "16 \<le> pb"
    and ap: "apart p s xs"
    and pp: "pb \<le> unat p" "24 \<le> unat s"
      "unat p + unat s \<le> unat (mem_start_brk h) + unat (mem_brk h) + 8"
  shows "\<exists>n t. (n, t) \<in> set (free_insert (p, s) xs)
           \<and> unat n \<le> unat p \<and> unat p + unat s \<le> unat n + unat t"
  using fl sp ap pp(1)
proof (induction xs arbitrary: slot pbw pb)
  case Nil
  then show ?case by simp
next
  case (Cons y xs)
  obtain n t where y: "y = (n, t)" by (cases y)
  note E = heap_end_small [OF ok]
  note f = fl_ok_facts [OF ok Cons.prems(1) [unfolded y] Cons.prems(2)]
  have p16: "16 \<le> unat p" using Cons.prems(2,4) by linarith
  have apn: "unat n + unat t \<le> unat p \<or> unat p + unat s \<le> unat n" and apr: "apart p s xs"
    using Cons.prems(3) by (auto simp add: apart_def y)
  have hd_facts: "unat n + unat t \<le> unat a
      \<and> unat a + unat u \<le> unat (mem_start_brk h) + unat (mem_brk h) + 8
      \<and> (unat a + unat u \<le> unat p \<or> unat p + unat s \<le> unat a)"
    if "xs = (a, u) # ys'" for a u ys'
  proof -
    have "16 \<le> unat n + unat t" using f(11) by linarith
    from fl_ok_facts [OF ok f(15) [unfolded that] this] apr that show ?thesis
      by (auto simp add: apart_def)
  qed
  show ?case
  proof (cases "p < n")
    case True
    then have pn: "unat p + unat s \<le> unat n"
      using apn by (auto simp add: word_less_nat_alt)
    have "\<exists>t'. (p, t') \<in> set (coalesce_succ (p, s) ((n, t) # xs)) \<and> unat s \<le> unat t'"
      using E p16 by (rule coalesce_succ_covers) (use pn f(13) in simp)
    then obtain t' where "(p, t') \<in> set (free_insert (p, s) (y # xs))" "unat s \<le> unat t'"
      using True by (auto simp add: y)
    then show ?thesis by (intro exI [of _ p] exI [of _ t']) simp
  next
    case False
    then have np: "unat n + unat t \<le> unat p"
      using apn pp(2) by (auto simp add: word_less_nat_alt)
    show ?thesis
    proof (cases "xs = [] \<or> p < fst (hd xs)")
      case True
      have nxt: "unat p + unat s \<le> unat a
          \<and> unat a + unat u \<le> unat (mem_start_brk h) + unat (mem_brk h) + 8"
        if "xs = (a, u) # ys'" for a u ys'
        using hd_facts [OF that] True that by (auto simp add: word_less_nat_alt)
      show ?thesis
      proof (cases "n + t = p")
        case adj: True
        have "(n + t = p) = (unat n + unat t = unat p)"
          using np pp(2,3) E by (intro word_sum_eq_iff) linarith
        then have ua: "unat n + unat t = unat p" using adj by simp
        have us: "unat (t + s) = unat t + unat s"
          using ua pp(3) f(14) E by (intro unat_sum_sizes) linarith
        have "\<exists>t'. (n, t') \<in> set (coalesce_succ (n, t + s) xs) \<and> unat (t + s) \<le> unat t'"
          using E by (rule coalesce_succ_covers) (use f(14) f(10) Cons.prems(2) nxt us ua in auto)
        then obtain t' where "(n, t') \<in> set (free_insert (p, s) (y # xs))" "unat (t + s) \<le> unat t'"
          using False True adj by (auto simp add: y)
        then show ?thesis using us ua by (intro exI [of _ n] exI [of _ t']) simp
      next
        case nadj: False
        have "\<exists>t'. (p, t') \<in> set (coalesce_succ (p, s) xs) \<and> unat s \<le> unat t'"
          using E p16 by (rule coalesce_succ_covers) (use nxt in auto)
        then obtain t' where "(p, t') \<in> set (free_insert (p, s) (y # xs))" "unat s \<le> unat t'"
          using False True nadj by (auto simp add: y)
        then show ?thesis by (intro exI [of _ p] exI [of _ t']) simp
      qed
    next
      case far: False
      have "16 \<le> unat n + unat t" using f(11) by linarith
      from Cons.IH [OF f(15) this apr np] obtain n' t' where
        "(n', t') \<in> set (free_insert (p, s) xs)" "unat n' \<le> unat p"
        "unat p + unat s \<le> unat n' + unat t'"
        by blast
      then show ?thesis
        using False far by (intro exI [of _ n'] exI [of _ t']) (simp add: y)
    qed
  qed
qed

text \<open>The run \<open>two_sided_run\<close>, call by call.\<close>

lemma two_s1:
  "mm_malloc Trap 64 (mk_heap 1048576 0 (writes zero_bytes []))
     = Inr ((65552, mk_heap 1048576 80 (writes zero_bytes [(65536, 0), (65544, 73)])))"
  by (simp add: eval_defs)

lemma two_s2:
  "mm_free 65552 (mk_heap 1048576 80 (writes zero_bytes [(65536, 0), (65544, 73)]))
     = Inr (mk_heap 1048576 80 (writes zero_bytes [(65536, 0), (65544, 73), (65544, 72), (65536, 65552), (65560, 0), (65552, 0)]))"
  apply (simp add: eval_defs)
  apply (subst free_loop.simps)
  apply (simp add: eval_defs)
  done

lemma two_s3:
  "mm_malloc Trap 16 (mk_heap 1048576 80 (writes zero_bytes [(65536, 0), (65544, 73), (65544, 72), (65536, 65552), (65560, 0), (65552, 0)]))
     = Inr ((65600, mk_heap 1048576 80 (writes zero_bytes [(65536, 0), (65544, 73), (65544, 72), (65536, 65552), (65560, 0), (65552, 0), (65544, 48), (65592, 25)])))"
  apply (simp add: eval_defs)
  apply (subst scan_loop.simps)
  apply (simp add: eval_defs)
  done

lemma two_s4:
  "mm_malloc Trap 16 (mk_heap 1048576 80 (writes zero_bytes [(65536, 0), (65544, 73), (65544, 72), (65536, 65552), (65560, 0), (65552, 0), (65544, 48), (65592, 25)]))
     = Inr ((65576, mk_heap 1048576 80 (writes zero_bytes [(65536, 0), (65544, 73), (65544, 72), (65536, 65552), (65560, 0), (65552, 0), (65544, 48), (65592, 25), (65544, 24), (65568, 25)])))"
  apply (simp add: eval_defs)
  apply (subst scan_loop.simps)
  apply (simp add: eval_defs)
  done

lemma two_s5:
  "mm_malloc Trap 16 (mk_heap 1048576 80 (writes zero_bytes [(65536, 0), (65544, 73), (65544, 72), (65536, 65552), (65560, 0), (65552, 0), (65544, 48), (65592, 25), (65544, 24), (65568, 25)]))
     = Inr ((65552, mk_heap 1048576 80 (writes zero_bytes [(65536, 0), (65544, 73), (65544, 72), (65536, 65552), (65560, 0), (65552, 0), (65544, 48), (65592, 25), (65544, 24), (65568, 25), (65536, 0), (65544, 25)])))"
  apply (simp add: eval_defs)
  apply (subst scan_loop.simps)
  apply (simp add: eval_defs)
  done

lemma two_s6:
  "mm_free 65552 (mk_heap 1048576 80 (writes zero_bytes [(65536, 0), (65544, 73), (65544, 72), (65536, 65552), (65560, 0), (65552, 0), (65544, 48), (65592, 25), (65544, 24), (65568, 25), (65536, 0), (65544, 25)]))
     = Inr (mk_heap 1048576 80 (writes zero_bytes [(65536, 0), (65544, 73), (65544, 72), (65536, 65552), (65560, 0), (65552, 0), (65544, 48), (65592, 25), (65544, 24), (65568, 25), (65536, 0), (65544, 25), (65544, 24), (65536, 65552), (65560, 0), (65552, 0)]))"
  apply (simp add: eval_defs)
  apply (subst free_loop.simps)
  apply (simp add: eval_defs)
  done

lemma two_s7:
  "mm_free 65600 (mk_heap 1048576 80 (writes zero_bytes [(65536, 0), (65544, 73), (65544, 72), (65536, 65552), (65560, 0), (65552, 0), (65544, 48), (65592, 25), (65544, 24), (65568, 25), (65536, 0), (65544, 25), (65544, 24), (65536, 65552), (65560, 0), (65552, 0)]))
     = Inr (mk_heap 1048576 80 (writes zero_bytes [(65536, 0), (65544, 73), (65544, 72), (65536, 65552), (65560, 0), (65552, 0), (65544, 48), (65592, 25), (65544, 24), (65568, 25), (65536, 0), (65544, 25), (65544, 24), (65536, 65552), (65560, 0), (65552, 0), (65592, 24), (65552, 65600), (65608, 65560), (65600, 0)]))"
  apply (simp add: eval_defs)
  apply (subst free_loop.simps)
  apply (simp add: eval_defs)
  done

lemma two_sided_run_result: "two_sided_run empty_heap = Inr (65576, two_free_heap)"
  unfolding two_sided_run_def empty_heap_writes two_free_heap_def
  by (simp add: bnd_def two_s1 two_s2 two_s3 two_s4 two_s5 two_s6 two_s7)


section \<open>Claims\<close>

text \<open>
  C1. A reallocation that returns a non-null pointer should leave the first
  \<open>min(old payload, n)\<close> bytes of the old payload at that pointer. In the run
  \<open>big_realloc_run\<close> the old block has 48 bytes, so 40 bytes of payload, with the word 12345
  at offset 24, and 4294967301 bytes are requested. \<^verbatim>\<open>mm_malloc\<close> computes a block of 24
  bytes for that request, because the request is compared after a cast to \<^verbatim>\<open>int\<close>, and
  returns the free block just below the old one. \<^verbatim>\<open>mm_realloc\<close> copies 4294967301 bytes
  into it and frees the old block, whose link slots now lie inside the first 40 bytes of
  the new payload: the word at offset 24 of the returned pointer is 0.
\<close>

theorem realloc_big_request_loses_payload:
  "big_realloc_run (mk_heap 8589934592 0 zero_bytes) = Inr (big_before, 65576, 65552, big_after)
   \<and> load64 big_before (moved_pointer 65576 0 BLOCK_PAYLOAD BLOCK_HEADER) = Inr 49
   \<and> load64 big_before (65576 + 24) = Inr 12345
   \<and> load64 big_after (65552 + 24) = Inr 0
   \<and> request_block_size 4294967301 = 24"
proof -
  have a: "load64 big_before (moved_pointer 65576 0 BLOCK_PAYLOAD BLOCK_HEADER) = Inr 49"
    "load64 big_before (65576 + 24) = Inr 12345"
    "request_block_size 4294967301 = 24"
    by (simp_all add: big_before_def eval_defs)
  have b: "load64 big_after (65552 + 24) = Inr 0"
    by (simp add: big_after_def eval_defs)
  show ?thesis using big_realloc_run_result a b by simp
qed

text \<open>
  C2. When the backing allocator refuses a growth request, \<^verbatim>\<open>mm_malloc\<close> should return
  \<^verbatim>\<open>NULL\<close> and leave the heap as it was. In the run below the allocator grants 128 bytes in
  all; the heap holds one free block of 120 bytes that ends at \<open>hi\<close>, and 200 bytes are
  requested. The request for the missing 88 bytes is refused, yet the call returns the
  payload 65552, empties the free list and writes the header 209 of a block of 208 bytes
  into a heap of 128 bytes.
\<close>

theorem refused_growth_returns_block:
  "refused_run (mk_heap 128 0 zero_bytes) = Inr (refused_before, 65552, refused_after)
   \<and> mem_sbrk (request_block_size 200 - 120) refused_before = (- 1, refused_before)
   \<and> load64 refused_before (mem_heap_lo refused_before) = Inr 65552
   \<and> load64 refused_before 65544 = Inr 120
   \<and> load64 refused_after (mem_heap_lo refused_after) = Inr 0
   \<and> load64 refused_after 65544 = Inr 209
   \<and> mem_heapsize refused_after = 128"
proof -
  have b: "mem_sbrk (request_block_size 200 - 120) refused_before = (- 1, refused_before)"
    by (simp add: refused_before_def eval_defs)
  have c: "load64 refused_before (mem_heap_lo refused_before) = Inr 65552"
    "load64 refused_before 65544 = Inr 120"
    "load64 refused_after (mem_heap_lo refused_after) = Inr 0"
    "load64 refused_after 65544 = Inr 209"
    "mem_heapsize refused_after = 128"
    by (simp_all add: refused_before_def refused_after_def eval_defs)
  show ?thesis using refused_run_result b c by simp
qed


text \<open>
  C3. The scenario expects the 64-byte allocation at the low end of the freed region, its
  header where the header of the freed block was. On the code the split keeps the low part
  free and hands out the high part: the expectation fails on the heap at 65536 when the
  unassigned \<^verbatim>\<open>size_act\<close> reads as 0.
\<close>

theorem split_on_reuse_low_end_counterexample:
  "\<not> lands_at_low_end (split_on_reuse (Garbage 0) empty_heap)"
  using split_on_reuse_result [of 1048576 0 zero_bytes]
  by (simp add: empty_heap_def lands_at_low_end_def eval_defs)

text \<open>
  C3, as the code has it. Whenever the second allocation extends the heap (the read of
  \<^verbatim>\<open>size_act\<close> gives a value other than 4120, the only one that selects the tail
  extension), the 64-byte allocation is the block of 72 bytes at the high end of the
  freed region: it ends where the freed block of 4104 bytes ended. The remainder of 4032
  bytes keeps the header position of the freed block, has its flag clear, and is the only
  element of the free list.
\<close>

theorem split_on_reuse_high_end:
  assumes "4136 \<le> unat mx" and "g \<noteq> 4120"
  shows "split_on_reuse (Garbage g) (mk_heap mx 0 m) = Inr (65552, 69584, split_final mx m)
    \<and> moved_pointer 69584 72 BLOCK_PAYLOAD BLOCK_END = moved_pointer 65552 4104 BLOCK_PAYLOAD BLOCK_END
    \<and> load64 (split_final mx m) (moved_pointer 69584 0 BLOCK_PAYLOAD BLOCK_HEADER) = Inr 73
    \<and> load64 (split_final mx m) (moved_pointer 65552 0 BLOCK_PAYLOAD BLOCK_HEADER) = Inr 4032
    \<and> load64 (split_final mx m) (mem_heap_lo (split_final mx m)) = Inr 65552
    \<and> load64 (split_final mx m) 65552 = Inr 0"
proof -
  have "moved_pointer 69584 72 BLOCK_PAYLOAD BLOCK_END = moved_pointer 65552 4104 BLOCK_PAYLOAD BLOCK_END"
    "load64 (split_final mx m) (moved_pointer 69584 0 BLOCK_PAYLOAD BLOCK_HEADER) = Inr 73"
    "load64 (split_final mx m) (moved_pointer 65552 0 BLOCK_PAYLOAD BLOCK_HEADER) = Inr 4032"
    "load64 (split_final mx m) (mem_heap_lo (split_final mx m)) = Inr 65552"
    "load64 (split_final mx m) 65552 = Inr 0"
    by (simp_all add: split_final_def eval_defs)
  then show ?thesis using split_on_reuse_result [OF assms] by simp
qed

theorem split_on_reuse_high_end_witness:
  "4136 \<le> unat (1048576 :: size_t) \<and> (0 :: size_t) \<noteq> 4120
    \<and> split_on_reuse (Garbage 0) (mk_heap 1048576 0 zero_bytes)
        = Inr (65552, 69584, split_final 1048576 zero_bytes)
    \<and> load64 (split_final 1048576 zero_bytes) (moved_pointer 65552 0 BLOCK_PAYLOAD BLOCK_HEADER) = Inr 4032"
  using split_on_reuse_high_end [of 1048576 0 zero_bytes] by simp

text \<open>
  C4. Between calls, no two free blocks should be physically adjacent. The run
  \<open>lost_list_run\<close> reads no unassigned local and stays inside the heap, and ends with the
  blocks \<open>65544\<close> (allocated, 72 bytes), \<open>65616\<close> (free, 24 bytes) and \<open>65640\<close> (free,
  24 bytes): two adjacent free blocks, of which only the first is on the free list. The
  checker's own heap walk answers 0 there.
\<close>

theorem lost_list_run_adjacent_free:
  "lost_list_run empty_heap = Inr lost_list_final
   \<and> blocks_from (Suc (Suc (Suc 0))) lost_list_final 65544
       = Some [(65544, 72, False), (65616, 24, True), (65640, 24, True)]
   \<and> has_adjacent_free [(65544, 72, False), (65616, 24, True), (65640, 24, True)]
   \<and> load64 lost_list_final (mem_heap_lo lost_list_final) = Inr 65624
   \<and> load64 lost_list_final 65624 = Inr 0
   \<and> print_heap_blocks lost_list_final = Inr 0"
proof -
  have b: "blocks_from (Suc (Suc (Suc 0))) lost_list_final 65544
       = Some [(65544, 72, False), (65616, 24, True), (65640, 24, True)]"
    by (simp add: lost_list_final_def eval_defs)
  have c: "has_adjacent_free [(65544 :: addr, 72 :: size_t, False), (65616, 24, True), (65640, 24, True)]"
    by simp
  have d: "load64 lost_list_final (mem_heap_lo lost_list_final) = Inr 65624"
    by (simp add: lost_list_final_def eval_defs)
  have e: "load64 lost_list_final 65624 = Inr 0"
    by (simp add: lost_list_final_def eval_defs)
  have f: "print_heap_blocks lost_list_final = Inr 0"
    apply (simp add: print_heap_blocks_def lost_list_final_def eval_defs)
    apply (subst blocks_loop.simps)
    apply (simp add: eval_defs)
    apply (subst blocks_loop.simps)
    apply (simp add: eval_defs)
    apply (subst blocks_loop.simps)
    apply (simp add: eval_defs)
    done
  show ?thesis using lost_list_run_result b c d e f by simp
qed


text \<open>
  C5. When a free block fits, \<^verbatim>\<open>mm_malloc\<close> should take the smallest fitting one. In the
  run \<open>huge_block_run\<close> the free list is \<open>[65552, 65672]\<close> before the last call, with blocks
  of 96 and of \<open>2 ^ 32\<close> bytes, and 208 bytes are needed. The scan ends with \<^verbatim>\<open>best_p\<close>
  still \<^verbatim>\<open>NULL\<close>, because a candidate must be smaller than the initial \<^verbatim>\<open>best_s\<close>, which is
  \<open>2 ^ 32 - 1\<close>; the call then grows the heap by 208 bytes and returns the new block at the
  old heap end.
\<close>

theorem huge_block_not_taken:
  "huge_block_run (mk_heap 8589934592 0 zero_bytes) = Inr (huge_before, 4295033176, huge_after)
   \<and> load64 huge_before (mem_heap_lo huge_before) = Inr 65552
   \<and> load64 huge_before 65552 = Inr 65672
   \<and> load64 huge_before 65672 = Inr 0
   \<and> load64 huge_before (moved_pointer 65552 0 BLOCK_FORWARD BLOCK_HEADER) = Inr 96
   \<and> load64 huge_before (moved_pointer 65672 0 BLOCK_FORWARD BLOCK_HEADER) = Inr 4294967296
   \<and> request_block_size 200 = 208
   \<and> scan_loop huge_before 208 65552 0 best_s_init = Some (Inr (65672, 4294967296, 0, best_s_init))
   \<and> best_s_init = 4294967295
   \<and> moved_pointer 4295033176 0 BLOCK_PAYLOAD BLOCK_HEADER = mem_heap_hi huge_before + 1
   \<and> mem_heapsize huge_after = mem_heapsize huge_before + 208"
proof -
  have a: "load64 huge_before (mem_heap_lo huge_before) = Inr 65552"
    "load64 huge_before 65552 = Inr 65672"
    "load64 huge_before 65672 = Inr 0"
    "load64 huge_before (moved_pointer 65552 0 BLOCK_FORWARD BLOCK_HEADER) = Inr 96"
    "load64 huge_before (moved_pointer 65672 0 BLOCK_FORWARD BLOCK_HEADER) = Inr 4294967296"
    "request_block_size 200 = 208"
    "best_s_init = 4294967295"
    "moved_pointer 4295033176 0 BLOCK_PAYLOAD BLOCK_HEADER = mem_heap_hi huge_before + 1"
    "mem_heapsize huge_after = mem_heapsize huge_before + 208"
    by (simp_all add: huge_before_def huge_after_def eval_defs)
  have b: "scan_loop huge_before 208 65552 0 best_s_init = Some (Inr (65672, 4294967296, 0, best_s_init))"
    apply (subst scan_loop.simps)
    apply (simp add: huge_before_def eval_defs)
    apply (subst scan_loop.simps)
    apply (simp add: eval_defs)
    done
  show ?thesis using huge_block_run_result a b by simp
qed

text \<open>
  C6. When no free block fits (every block of the free list is smaller than the block size
  of the request), the last free block ends exactly at \<open>hi\<close>, and the backing allocator
  grants the missing bytes, \<^verbatim>\<open>mm_malloc\<close> extends the heap by exactly the block size minus
  the size of that tail block, returns the payload of the tail block, whose header now
  holds the block size with the allocated flag, and leaves the free list without its last
  element (when the tail was the only element the list head is \<^verbatim>\<open>NULL\<close>).
\<close>

theorem malloc_tail_extension:
  assumes fl: "free_list h xs" and ne: "xs \<noteq> []" and hs: "mem_heapsize h \<noteq> 0"
    and nofit: "\<forall>x \<in> set xs. snd x < request_block_size n0"
    and tail: "moved_pointer (fst (last xs)) (snd (last xs)) BLOCK_FORWARD BLOCK_END = mem_heap_hi h + 1"
    and grant: "unat (mem_brk h) + unat (request_block_size n0 - snd (last xs)) \<le> unat (mem_max h)"
  shows "\<exists>h'. mm_malloc junk n0 h = Inr (fst (last xs), h')
           \<and> mem_heapsize h' = mem_heapsize h + (request_block_size n0 - snd (last xs))
           \<and> load64 h' (moved_pointer (fst (last xs)) 0 BLOCK_PAYLOAD BLOCK_HEADER)
               = Inr (request_block_size n0 + 1)
           \<and> free_list h' (butlast xs)"
proof -
  define newsize where "newsize = request_block_size n0"
  define lo where "lo = mem_start_brk h"
  obtain ys n s where xs: "xs = ys @ [(n, s)]"
    using ne by (metis append_butlast_last_id surj_pair)
  have ok: "heap_ok h" and chain: "fl_ok h lo 0 (unat lo + 16) (ys @ [(n, s)])"
    using fl xs by (simp_all add: free_list_def mem_heap_lo_def lo_def)
  have nw: "unat lo + unat (mem_max h) < 2 ^ 64" "unat (mem_brk h) \<le> unat (mem_max h)"
    using ok by (simp_all add: heap_ok_def lo_def)
  have grant': "unat (mem_brk h) + unat (newsize - s) \<le> unat (mem_max h)"
    using grant by (simp add: xs newsize_def)
  define A where "A = (if ys = [] then lo else fst (last ys))"
  define pbw where "pbw = (if ys = [] then 0 else fst (last ys) + 8)"
  note last = fl_ok_last [OF chain]
  have lA: "load64 h A = Inr n" and lh: "load64 h (n - 8) = Inr s"
    and lb: "load64 h (n + 8) = Inr pbw" and s24: "24 \<le> unat s"
    and e: "unat n + unat s \<le> unat lo + unat (mem_brk h) + 8"
    and gap: "ys \<noteq> [] \<Longrightarrow> unat (fst (last ys)) + 24 \<le> unat n"
    using last by (simp_all add: A_def pbw_def lo_def)
  have n16: "unat lo + 16 \<le> unat n" using fl_ok_lower [OF chain, of "(n, s)"] by simp
  have un8: "unat (n - 8) = unat n - 8" using n16 by (simp add: unat_minus8)
  have Ah: "in_heap h A 8" and hh: "in_heap h (n - 8) 8"
    using lA lh by (simp_all add: load64_Inr_iff)
  have A_n: "unat A + 16 \<le> unat n"
    using n16 gap by (cases "ys = []") (simp_all add: A_def)
  \<comment> \<open>the scan ends at the last block without a candidate\<close>
  obtain n1 s1 zs where ys1: "ys @ [(n, s)] = (n1, s1) # zs"
    by (cases "ys @ [(n, s)]") auto
  have first: "load64 h lo = Inr n1" "unat lo + 16 \<le> unat n1"
    using chain unfolding ys1 fl_ok_Cons by blast+
  then have n1z: "n1 \<noteq> 0" by auto
  have scan: "scan_loop h newsize n1 0 best_s_init = Some (Inr (n, s, 0, best_s_init))"
    using scan_loop_nofit [OF chain [unfolded ys1], of newsize 0 best_s_init] nofit
    unfolding xs ys1 newsize_def by (simp add: ys1 [symmetric])
  have m1: "mm_malloc junk n0 h = no_fit junk newsize n (Some s) h"
    using hs first(1) n1z scan
    by (simp add: mm_malloc_def Let_def newsize_def [symmetric] mem_heap_lo_def lo_def [symmetric]
        bnd_def terminated_def)
  \<comment> \<open>the tail-extension branch\<close>
  have tl: "n - 8 + s = mem_start_brk h + mem_brk h"
    using tail by (simp add: xs mp_simps mem_heap_hi_def)
  have A_slot: "A = (if pbw \<noteq> 0 then pbw - 8 else mem_start_brk h)"
  proof (cases "ys = []")
    case True
    then show ?thesis by (simp add: A_def pbw_def lo_def)
  next
    case False
    have "unat (fst (last ys) + 8) = unat (fst (last ys)) + 8"
      using gap [OF False] e nw by (intro unat_plus8) linarith
    then have "fst (last ys) + 8 \<noteq> 0" by (metis add_is_0 unat_0 zero_neq_numeral)
    then show ?thesis using False by (simp add: A_def pbw_def)
  qed
  define h' where "h' = h\<lparr>mem_brk := mem_brk h + (newsize - s),
                       bytes := st (st (bytes h) A 0) (n - 8) (newsize + 1)\<rparr>"
  have nf: "no_fit junk newsize n (Some s) h = Inr (n, h')"
    unfolding h'_def
    using nw(1) hh lb A_slot Ah tl grant'
    by (intro no_fit_tail_extension) (simp_all add: lo_def)
  \<comment> \<open>the new heap\<close>
  have ub: "unat (mem_brk h + (newsize - s)) = unat (mem_brk h) + unat (newsize - s)"
    using grant' nw by (intro unat_plus_small) linarith
  have g: "mem_start_brk h' = mem_start_brk h" "unat (mem_brk h) \<le> unat (mem_brk h')"
    "mem_max h' = mem_max h" "mem_brk h' = mem_brk h + (newsize - s)"
    using ub by (simp_all add: h'_def)
  have ok': "heap_ok h'"
    using ok grant' ub by (simp add: heap_ok_def g)
  have wrapA: "unat A + 8 \<le> 2 ^ 64" "unat (n - 8) + 8 \<le> 2 ^ 64"
    using Ah hh nw by (simp_all add: in_heap_def lo_def)
  have hdr': "load64 h' (n - 8) = Inr (newsize + 1)"
    using in_heap_grow [OF hh g(1,2)] by (simp add: load64_def h'_def ld_st_same)
  have zero': "load64 h' A = Inr 0"
  proof -
    have "ld (st (st (bytes h) A 0) (n - 8) (newsize + 1)) A = ld (st (bytes h) A 0) A"
      using A_n un8 wrapA by (intro ld_st_other) simp_all
    then show ?thesis
      using in_heap_grow [OF Ah g(1,2)] by (simp add: load64_def h'_def ld_st_same)
  qed
  have same': "load64 h' a = load64 h a"
    if "in_heap h a 8" "unat a + 8 \<le> unat A \<or> unat A + 8 \<le> unat a" "unat a + 16 \<le> unat n" for a
  proof -
    have wa: "unat a + 8 \<le> 2 ^ 64" using that(1) nw by (simp add: in_heap_def lo_def)
    have "ld (st (st (bytes h) A 0) (n - 8) (newsize + 1)) a = ld (st (bytes h) A 0) a"
      using that(3) un8 wrapA wa by (intro ld_st_other) simp_all
    also have "\<dots> = ld (bytes h) a"
      using that(2) wrapA wa by (intro ld_st_other) auto
    finally show ?thesis
      using that(1) in_heap_grow [OF that(1) g(1,2)] by (simp add: load64_def h'_def)
  qed
  have "fl_ok h' lo 0 (unat lo + 16) ys"
    using chain _ _ _ g(1,2) zero' same'
    by (rule fl_ok_drop_last) (use nw in \<open>simp_all add: A_def lo_def\<close>)
  then have fl': "free_list h' (butlast xs)"
    using ok' by (simp add: free_list_def xs mem_heap_lo_def g(1) lo_def)
  have "mm_malloc junk n0 h = Inr (fst (last xs), h')" using m1 nf by (simp add: xs)
  moreover have "mem_heapsize h' = mem_heapsize h + (request_block_size n0 - snd (last xs))"
    by (simp add: mem_heapsize_def g(4) xs newsize_def)
  moreover have "load64 h' (moved_pointer (fst (last xs)) 0 BLOCK_PAYLOAD BLOCK_HEADER)
               = Inr (request_block_size n0 + 1)"
    using hdr' by (simp add: xs mp_simps newsize_def)
  ultimately show ?thesis using fl' by blast
qed


theorem malloc_tail_extension_witness:
  "free_list freed_block_heap [(65552, 120)]
   \<and> mem_heapsize freed_block_heap \<noteq> 0
   \<and> (120 :: size_t) < request_block_size 200
   \<and> moved_pointer 65552 120 BLOCK_FORWARD BLOCK_END = mem_heap_hi freed_block_heap + 1
   \<and> unat (mem_brk freed_block_heap) + unat (request_block_size 200 - 120) \<le> unat (mem_max freed_block_heap)
   \<and> (\<exists>h'. mm_malloc Trap 200 freed_block_heap = Inr (65552, h')
         \<and> mem_heapsize h' = 128 + 88
         \<and> load64 h' 65544 = Inr 209
         \<and> free_list h' [])"
proof -
  have a: "free_list freed_block_heap [(65552, 120)]"
    by (simp add: free_list_def heap_ok_def freed_block_heap_def eval_defs)
  have b: "mem_heapsize freed_block_heap \<noteq> 0"
    "(120 :: size_t) < request_block_size 200"
    "moved_pointer 65552 120 BLOCK_FORWARD BLOCK_END = mem_heap_hi freed_block_heap + 1"
    "unat (mem_brk freed_block_heap) + unat (request_block_size 200 - 120) \<le> unat (mem_max freed_block_heap)"
    by (simp_all add: freed_block_heap_def eval_defs)
  have c: "request_block_size 200 = 208" by (simp add: eval_defs)
  show ?thesis
    using malloc_tail_extension [of freed_block_heap "[(65552, 120)]" 200 Trap] a b
    by (simp add: c mp_simps mem_heapsize_def freed_block_heap_def mk_heap_def)
qed



text \<open>
  C7. \<^verbatim>\<open>mm_check\<close> should return 1 after every sequence of calls, the empty one included.
  On the empty heap the heap walk reads the word at \<open>lo + 8\<close>, which is outside the heap.
  On a heap with one allocated block and an empty free list the heap walk answers 1, but
  \<^verbatim>\<open>free_list_debug\<close> leaves through \<^verbatim>\<open>return;\<close> and \<^verbatim>\<open>mm_check\<close> uses a value that was never
  returned. After the run \<open>lost_pair_run\<close>, in which no read is undefined, the free list has
  two elements and both functions return a value: the heap walk finds a free block that is
  not on the list, and \<^verbatim>\<open>mm_check\<close> returns 0.
\<close>

theorem mm_check_not_true:
  "mm_check empty_heap = Inl (OutOfHeap 65544)
   \<and> print_heap_blocks (one_block_heap 1048576) = Inr 1
   \<and> free_list_debug (one_block_heap 1048576) = Inr None
   \<and> mm_check (one_block_heap 1048576) = Inl NoReturnValue
   \<and> lost_pair_run empty_heap = Inr lost_pair_final
   \<and> mm_check lost_pair_final = Inr 0"
proof -
  have a: "mm_check empty_heap = Inl (OutOfHeap 65544)"
    by (simp add: mm_check_def print_heap_blocks_def empty_heap_def eval_defs)
  have b: "print_heap_blocks (one_block_heap 1048576) = Inr 1"
    apply (simp add: print_heap_blocks_def one_block_heap_def eval_defs)
    apply (subst blocks_loop.simps)
    apply (simp add: eval_defs)
    apply (subst blocks_loop.simps)
    apply (simp add: eval_defs)
    done
  have c: "free_list_debug (one_block_heap 1048576) = Inr None"
    by (simp add: free_list_debug_def one_block_heap_def eval_defs)
  have d: "mm_check lost_pair_final = Inr 0"
    by (simp add: mm_check_def bnd_def lost_pair_print lost_pair_debug)
  show ?thesis using a b c d lost_pair_run_result by (simp add: mm_check_def bnd_def)
qed

text \<open>
  C8. For a non-null \<open>ptr\<close> that was returned by \<^verbatim>\<open>mm_malloc\<close> or \<^verbatim>\<open>mm_realloc\<close> and not freed
  since, \<^verbatim>\<open>mm_realloc(ptr, 0)\<close> frees the block and returns \<open>ptr\<close> itself, not \<^verbatim>\<open>NULL\<close>. Whenever
  the free list is well formed and \<open>ptr\<close> is an allocated block of \<open>s\<close> bytes that overlaps
  no free block, the call returns \<open>ptr\<close>, the heap keeps its size, and the free list of the
  new heap is the old one with the block put in at its place in address order and merged
  with the list neighbours it touches (\<open>free_insert\<close>); that list is well formed again, so
  every block on it has the allocation flag clear; and the bytes of the freed block lie
  inside one block of it. In the witness, the heap of \<open>two_sided_run\<close>, the block lies
  between two free blocks of 24 bytes and the three become one block of 72 bytes.
\<close>

theorem realloc_zero_frees_into_list:
  assumes "free_list h xs" and "allocated_block h ptr s" and "apart ptr s xs"
  shows "ptr \<noteq> 0
    \<and> (\<exists>h'. mm_realloc junk ptr 0 h = Inr (ptr, h')
           \<and> mem_heapsize h' = mem_heapsize h
           \<and> free_list h' (free_insert (ptr, s) xs))
    \<and> (\<exists>n t. (n, t) \<in> set (free_insert (ptr, s) xs)
           \<and> unat n \<le> unat ptr \<and> unat ptr + unat s \<le> unat n + unat t)"
proof -
  have nz: "ptr \<noteq> 0" using assms(2) by (auto simp add: allocated_block_def)
  from mm_free_ok [OF assms] obtain m' where
    "mm_free ptr h = Inr (h\<lparr>bytes := m'\<rparr>)"
    "free_list (h\<lparr>bytes := m'\<rparr>) (free_insert (ptr, s) xs)"
    by blast
  then have "mm_realloc junk ptr 0 h = Inr (ptr, h\<lparr>bytes := m'\<rparr>)
      \<and> mem_heapsize (h\<lparr>bytes := m'\<rparr>) = mem_heapsize h
      \<and> free_list (h\<lparr>bytes := m'\<rparr>) (free_insert (ptr, s) xs)"
    using nz by (simp add: mm_realloc_def bnd_def mem_heapsize_def)
  moreover have "\<exists>n t. (n, t) \<in> set (free_insert (ptr, s) xs)
           \<and> unat n \<le> unat ptr \<and> unat ptr + unat s \<le> unat n + unat t"
  proof (rule free_insert_covers)
    show "heap_ok h" "fl_ok h (mem_heap_lo h) 0 (unat (mem_heap_lo h) + 16) xs"
      using assms(1) by (simp_all add: free_list_def)
  qed (use assms(2,3) in \<open>simp_all add: allocated_block_def\<close>)
  ultimately show ?thesis using nz by blast
qed

theorem realloc_zero_frees_into_list_witness:
  "free_list two_free_heap [(65552, 24), (65600, 24)]
   \<and> allocated_block two_free_heap 65576 24
   \<and> apart 65576 24 [(65552, 24), (65600, 24)]
   \<and> (65576 :: addr) \<noteq> 0
   \<and> (\<exists>h'. mm_realloc Trap 65576 0 two_free_heap = Inr (65576, h')
         \<and> mem_heapsize h' = 80
         \<and> free_list h' [(65552, 72)])"
proof -
  have a: "free_list two_free_heap [(65552, 24), (65600, 24)]"
    by (simp add: free_list_def heap_ok_def two_free_heap_def eval_defs)
  have b: "allocated_block two_free_heap 65576 24"
    by (simp add: allocated_block_def two_free_heap_def eval_defs)
  have c: "apart 65576 24 [(65552, 24), (65600, 24)]"
    by (simp add: apart_def)
  have d: "mem_heapsize two_free_heap = 80"
    by (simp add: two_free_heap_def mk_heap_def mem_heapsize_def)
  show ?thesis
    using realloc_zero_frees_into_list [of two_free_heap "[(65552, 24), (65600, 24)]" 65576 24 Trap]
      a b c
    by (simp add: d)
qed


text \<open>
  C9. When \<^verbatim>\<open>mm_realloc\<close> has to grow a block, it reads the word at the end of that block
  before it compares that address with the heap end: whenever that read fails, the call
  fails with it. For the last block of the heap the address is \<open>hi + 1\<close>, and the call ends
  in the out-of-heap error.
\<close>

theorem realloc_tail_reads_past_heap_end:
  assumes "ptr \<noteq> 0" and "asked_size \<noteq> 0"
    and "load64 h (moved_pointer ptr 0 BLOCK_PAYLOAD BLOCK_HEADER) = Inr hdr"
    and "hdr - 1 < ALIGN (asked_size + SIZE_T_SIZE)"
  shows "(load64 h (moved_pointer ptr (hdr - 1) BLOCK_PAYLOAD BLOCK_END) = Inl e
            \<longrightarrow> mm_realloc junk ptr asked_size h = Inl e)
       \<and> (moved_pointer ptr (hdr - 1) BLOCK_PAYLOAD BLOCK_END = mem_heap_hi h + 1
            \<longrightarrow> mm_realloc junk ptr asked_size h = Inl (OutOfHeap (mem_heap_hi h + 1)))"
proof -
  have fail: "mm_realloc junk ptr asked_size h = Inl e'"
    if "load64 h (moved_pointer ptr (hdr - 1) BLOCK_PAYLOAD BLOCK_END) = Inl e'" for e'
    using assms that by (simp add: mm_realloc_def bnd_def Let_def not_le [symmetric])
  have "load64 h (mem_heap_hi h + 1) = Inl (OutOfHeap (mem_heap_hi h + 1))"
    using end_not_in_heap [of h] by (simp add: load64_def hi_plus_one)
  then show ?thesis using fail by auto
qed

theorem realloc_tail_reads_past_heap_end_witness:
  "(65552 :: addr) \<noteq> 0 \<and> (200 :: size_t) \<noteq> 0
   \<and> load64 (one_block_heap 1048576) (moved_pointer 65552 0 BLOCK_PAYLOAD BLOCK_HEADER) = Inr 121
   \<and> (121 :: size_t) - 1 < ALIGN (200 + SIZE_T_SIZE)
   \<and> load64 (one_block_heap 1048576) (moved_pointer 65552 (121 - 1) BLOCK_PAYLOAD BLOCK_END)
       = Inl (OutOfHeap 65664)
   \<and> moved_pointer 65552 (121 - 1) BLOCK_PAYLOAD BLOCK_END = mem_heap_hi (one_block_heap 1048576) + 1
   \<and> mm_realloc Trap 65552 200 (one_block_heap 1048576) = Inl (OutOfHeap 65664)"
  using realloc_tail_reads_past_heap_end [of 65552 200 "one_block_heap 1048576" 121 "OutOfHeap 65664" Trap]
  by (simp add: one_block_heap_def eval_defs)





end
